theory Spec2Isabelle
  imports Complex_Main
begin

section \<open>Speaker diarization script: shallow embedding of \<open>diarize.py\<close>\<close>

text \<open>
  The script loads a WAV file, slices it into overlapping frames, asks an embedding
  model for one vector per frame, clusters the vectors and merges runs of equal labels
  into segments.

  Conventions of the embedding.
  \<^item> Python's floats are modelled by exact rationals (\<open>rat\<close>): sample values, the
    durations \<open>frame_sec\<close> and \<open>hop_sec\<close>, and the time stamps \<open>start / sr\<close>.
    For the values the script itself uses (16000 Hz, 1.5 s, 0.75 s; time stamps that
    are multiples of 0.75) the float computation is exact, so nothing is lost there.
    Where other durations are considered, \<open>slice_frames_fp\<close> takes the float
    product and quotient as parameters.
  \<^item> Every \<open>raise\<close> of the script or of a built-in it calls is a value \<open>Inl e\<close>.
  \<^item> The embedding model (SpeechBrain) and the clustering (scikit-learn) are external
    libraries; \<open>main\<close> takes them as parameters.
\<close>

subsection \<open>Errors\<close>

datatype error = ValueError | IndexError | ZeroDivisionError | OverflowError | ExtractionError

subsection \<open>Audio loading\<close>

text \<open>
  \<open>sf.read\<close> returns a one-dimensional array for a mono file and a two-dimensional
  array (one row per sample instant, one column per channel) otherwise, together with
  the sample rate.
\<close>

datatype audio_data = Mono "rat list" | Multi "rat list list"

text \<open>\<open>np.mean\<close> of one row (all channels of one sample instant).\<close>

definition np_mean :: "rat list \<Rightarrow> rat" where
  "np_mean row = sum_list row / of_nat (length row)"

text \<open>
  \<open>load_audio_mono_16k\<close>, lines 19--29. The argument stands for the decoded
  file, that is, for the result of \<open>sf.read(path)\<close>. The test \<open>audio.ndim > 1\<close> is
  the case \<open>Multi\<close>, where the channels are averaged (\<open>axis=1\<close>). The cast to
  \<open>float32\<close> is the identity on the rational model.
\<close>

definition load_audio_mono_16k :: "audio_data \<times> int \<Rightarrow> error + (rat list \<times> int)" where
  "load_audio_mono_16k decoded =
     (case decoded of (audio, sr) \<Rightarrow>
        let audio1 = (case audio of Multi rows \<Rightarrow> map np_mean rows | Mono xs \<Rightarrow> xs)
        in if sr \<noteq> 16000 then Inl ValueError else Inr (audio1, sr))"

subsection \<open>Frame slicing\<close>

text \<open>Python's \<open>int()\<close> on a float truncates towards zero.\<close>

definition py_int :: "rat \<Rightarrow> int" where
  "py_int q = (if 0 \<le> q then \<lfloor>q\<rfloor> else \<lceil>q\<rceil>)"

text \<open>
  \<open>range(0, stop, step)\<close>: the values \<open>0, step, 2 * step, ...\<close> below \<open>stop\<close> for a
  positive step, above \<open>stop\<close> for a negative step; a zero step raises \<open>ValueError\<close>.
\<close>

function range_up :: "int \<Rightarrow> int \<Rightarrow> int \<Rightarrow> int list" where
  "range_up i stop step =
     (if 0 < step \<and> i < stop then i # range_up (i + step) stop step else [])"
  by pat_completeness auto
termination
  by (relation "measure (\<lambda>(i, stop, step). nat (stop - i))") auto

function range_down :: "int \<Rightarrow> int \<Rightarrow> int \<Rightarrow> int list" where
  "range_down i stop step =
     (if step < 0 \<and> stop < i then i # range_down (i + step) stop step else [])"
  by pat_completeness auto
termination
  by (relation "measure (\<lambda>(i, stop, step). nat (i - stop))") auto

definition py_range :: "int \<Rightarrow> int \<Rightarrow> error + int list" where
  "py_range stop step =
     (if step = 0 then Inl ValueError
      else if 0 < step then Inr (range_up 0 stop step)
      else Inr (range_down 0 stop step))"

text \<open>
  The slice \<open>xs[a:b]\<close>: a negative bound counts from the end, and both bounds are
  clamped to the list.
\<close>

definition py_slice :: "'a list \<Rightarrow> int \<Rightarrow> int \<Rightarrow> 'a list" where
  "py_slice xs a b =
     (let n = int (length xs);
          a1 = (if a < 0 then max 0 (n + a) else min a n);
          b1 = (if b < 0 then max 0 (n + b) else min b n)
      in take (nat (b1 - a1)) (drop (nat a1) xs))"

text \<open>
  The body of the \<open>for\<close> loop of \<open>slice_frames\<close> (lines 43--46), over the list of
  window starts. \<open>start / sr\<close> is a true division and raises for \<open>sr = 0\<close>.
\<close>

fun frames_loop ::
  "rat list \<Rightarrow> int \<Rightarrow> int \<Rightarrow> int list \<Rightarrow> error + (rat list list \<times> (rat \<times> rat) list)" where
  "frames_loop audio sr frame_len [] = Inr ([], [])"
| "frames_loop audio sr frame_len (st # rest) =
     (if sr = 0 then Inl ZeroDivisionError
      else (case frames_loop audio sr frame_len rest of
              Inl e \<Rightarrow> Inl e
            | Inr (frames, times') \<Rightarrow>
                Inr (py_slice audio st (st + frame_len) # frames,
                     (of_int st / of_int sr, of_int (st + frame_len) / of_int sr) # times')))"

text \<open>\<open>slice_frames\<close>, lines 32--48.\<close>

definition slice_frames ::
  "rat list \<Rightarrow> int \<Rightarrow> rat \<Rightarrow> rat \<Rightarrow> error + (rat list list \<times> (rat \<times> rat) list)" where
  "slice_frames audio sr frame_sec hop_sec =
     (let frame_len = py_int (frame_sec * of_int sr);
          hop_len = py_int (hop_sec * of_int sr)
      in if int (length audio) < frame_len then Inr ([], [])
         else (case py_range (int (length audio) - frame_len + 1) hop_len of
                 Inl e \<Rightarrow> Inl e
               | Inr starts \<Rightarrow> frames_loop audio sr frame_len starts))"

subsection \<open>Frame slicing with the float operations left open\<close>

text \<open>
  \<open>slice_frames\<close> above computes \<open>frame_sec * sr\<close> and \<open>start / sr\<close> exactly, where
  Python rounds the product and the quotient to a float. With the constants of
  \<open>main\<close> nothing is rounded: \<open>1.5 * 16000\<close>, \<open>0.75 * 16000\<close> and the multiples of
  0.75 are floats. For other durations the rounded product may lie on the other side of
  an integer, so the two functions are given once more with the two float operations as
  parameters:
  \<^item> \<open>float_mul x n\<close> is the float product \<open>x * n\<close> of a float and an integer,
    \<open>None\<close> when it is not finite, in which case \<open>int()\<close> raises \<open>OverflowError\<close>;
  \<^item> \<open>float_div a b\<close> is the float quotient \<open>a / b\<close> of two integers, \<open>b\<close> not zero.

  Nothing is assumed of either, so what is proved of \<open>slice_frames_fp\<close> holds
  however the two operations round.
\<close>

fun frames_loop_fp ::
  "(int \<Rightarrow> int \<Rightarrow> rat) \<Rightarrow> rat list \<Rightarrow> int \<Rightarrow> int \<Rightarrow> int list \<Rightarrow>
   error + (rat list list \<times> (rat \<times> rat) list)" where
  "frames_loop_fp float_div audio sr frame_len [] = Inr ([], [])"
| "frames_loop_fp float_div audio sr frame_len (st # rest) =
     (if sr = 0 then Inl ZeroDivisionError
      else (case frames_loop_fp float_div audio sr frame_len rest of
              Inl e \<Rightarrow> Inl e
            | Inr (frames, times') \<Rightarrow>
                Inr (py_slice audio st (st + frame_len) # frames,
                     (float_div st sr, float_div (st + frame_len) sr) # times')))"

definition slice_frames_fp ::
  "(rat \<Rightarrow> int \<Rightarrow> rat option) \<Rightarrow> (int \<Rightarrow> int \<Rightarrow> rat) \<Rightarrow>
   rat list \<Rightarrow> int \<Rightarrow> rat \<Rightarrow> rat \<Rightarrow> error + (rat list list \<times> (rat \<times> rat) list)" where
  "slice_frames_fp float_mul float_div audio sr frame_sec hop_sec =
     (case float_mul frame_sec sr of
        None \<Rightarrow> Inl OverflowError
      | Some p \<Rightarrow>
          (case float_mul hop_sec sr of
             None \<Rightarrow> Inl OverflowError
           | Some h \<Rightarrow>
               let frame_len = py_int p;
                   hop_len = py_int h
               in if int (length audio) < frame_len then Inr ([], [])
                  else (case py_range (int (length audio) - frame_len + 1) hop_len of
                          Inl e \<Rightarrow> Inl e
                        | Inr starts \<Rightarrow> frames_loop_fp float_div audio sr frame_len starts)))"

subsection \<open>Merging frames into segments\<close>

text \<open>
  A label is whatever the label array holds: integers when the array comes from the
  clustering, strings when a segment list is fed back in. \<open>py_str\<close> is Python's
  \<open>str\<close> on it.
\<close>

datatype label = IntLabel int | StrLabel string

definition digit_char :: "nat \<Rightarrow> char" where
  "digit_char d = char_of (48 + d)"

fun str_nat :: "nat \<Rightarrow> string" where
  "str_nat n = (if n < 10 then [digit_char n] else str_nat (n div 10) @ [digit_char (n mod 10)])"

declare str_nat.simps [simp del]

definition str_int :: "int \<Rightarrow> string" where
  "str_int i = (if i < 0 then CHR ''-'' # str_nat (nat (- i)) else str_nat (nat i))"

fun py_str :: "label \<Rightarrow> string" where
  "py_str (IntLabel i) = str_int i"
| "py_str (StrLabel s) = s"

text \<open>
  \<open>round(x, 3)\<close>: the nearest multiple of one thousandth, a tie going to the even
  one.
\<close>

definition round_half_even :: "rat \<Rightarrow> int" where
  "round_half_even q =
     (let f = \<lfloor>q\<rfloor>; r = q - of_int f
      in if r < 1 / 2 then f else if 1 / 2 < r then f + 1 else if even f then f else f + 1)"

definition round3 :: "rat \<Rightarrow> rat" where
  "round3 x = of_int (round_half_even (x * 1000)) / 1000"

record segment =
  start :: rat
  end' :: rat
  label :: string

definition mk_segment :: "rat \<Rightarrow> rat \<Rightarrow> label \<Rightarrow> segment" where
  "mk_segment seg_start seg_end cur_label =
     \<lparr>start = round3 seg_start, end' = round3 seg_end, label = py_str cur_label\<rparr>"

text \<open>
  The loop of \<open>frames_to_segments\<close> (lines 58--69) with its running
  \<open>cur_label\<close>, \<open>seg_start\<close>, \<open>seg_end\<close>, followed by the final append (lines
  71--75). The loop runs over the indices of \<open>labels\<close>; \<open>times[i]\<close> raises when
  \<open>times\<close> is shorter.
\<close>

fun merge_loop ::
  "label \<Rightarrow> rat \<Rightarrow> rat \<Rightarrow> label list \<Rightarrow> (rat \<times> rat) list \<Rightarrow> error + segment list" where
  "merge_loop cur_label seg_start seg_end [] times' = Inr [mk_segment seg_start seg_end cur_label]"
| "merge_loop cur_label seg_start seg_end (l # labels) [] = Inl IndexError"
| "merge_loop cur_label seg_start seg_end (l # labels) (t # times') =
     (if l = cur_label then merge_loop cur_label seg_start (snd t) labels times'
      else (case merge_loop l (fst t) (snd t) labels times' of
              Inl e \<Rightarrow> Inl e
            | Inr segments \<Rightarrow> Inr (mk_segment seg_start seg_end cur_label # segments)))"

text \<open>\<open>frames_to_segments\<close>, lines 51--77.\<close>

definition frames_to_segments :: "label list \<Rightarrow> (rat \<times> rat) list \<Rightarrow> error + segment list" where
  "frames_to_segments labels times' =
     (case labels of
        [] \<Rightarrow> Inl IndexError
      | cur_label # labels_tl \<Rightarrow>
          (case times' of
             [] \<Rightarrow> Inl IndexError
           | t # times_tl \<Rightarrow> merge_loop cur_label (fst t) (snd t) labels_tl times_tl))"

subsection \<open>The pipeline\<close>

text \<open>
  Lines 106--117 of \<open>main\<close>: one call of the embedding model per frame, in order.
  The model is the parameter \<open>encode_batch\<close>; a failure of it ends the run.
\<close>

fun extract_embeddings :: "(rat list \<Rightarrow> error + 'e) \<Rightarrow> rat list list \<Rightarrow> error + 'e list" where
  "extract_embeddings encode_batch [] = Inr []"
| "extract_embeddings encode_batch (frame # frames) =
     (case encode_batch frame of
        Inl e \<Rightarrow> Inl e
      | Inr emb \<Rightarrow>
          (case extract_embeddings encode_batch frames of
             Inl e \<Rightarrow> Inl e
           | Inr embeddings \<Rightarrow> Inr (emb # embeddings)))"

text \<open>
  Lines 129--142 of \<open>main\<close>: the number of clusters and the label of every frame.
  The parameter \<open>cluster\<close> stands for
  \<open>AgglomerativeClustering(n_clusters, metric="cosine", linkage="average").fit_predict\<close>.
\<close>

definition n_clusters_of :: "int \<Rightarrow> 'e list \<Rightarrow> int" where
  "n_clusters_of max_speakers embeddings =
     (let n_clusters = min max_speakers (int (length embeddings))
      in if n_clusters < 1 then 1 else n_clusters)"

definition assign_labels ::
  "(int \<Rightarrow> 'e list \<Rightarrow> error + int list) \<Rightarrow> int \<Rightarrow> 'e list \<Rightarrow> error + int list" where
  "assign_labels cluster max_speakers embeddings =
     (let n_clusters = n_clusters_of max_speakers embeddings
      in if n_clusters = 1 then Inr (replicate (length embeddings) 0)
         else cluster n_clusters embeddings)"

text \<open>
  \<open>main\<close>, lines 80--147. The result is the list written under
  \<open>"speakerSegments"\<close>, or the exception that ended the run.
\<close>

definition main ::
  "(rat list \<Rightarrow> error + 'e) \<Rightarrow> (int \<Rightarrow> 'e list \<Rightarrow> error + int list) \<Rightarrow>
   audio_data \<times> int \<Rightarrow> int \<Rightarrow> error + segment list" where
  "main encode_batch cluster decoded max_speakers =
     (case load_audio_mono_16k decoded of
        Inl e \<Rightarrow> Inl e
      | Inr (audio, sr) \<Rightarrow>
          (case slice_frames audio sr (3 / 2) (3 / 4) of
             Inl e \<Rightarrow> Inl e
           | Inr (frames, times') \<Rightarrow>
               if length frames = 0 then Inr []
               else (case extract_embeddings encode_batch frames of
                       Inl e \<Rightarrow> Inl e
                     | Inr embeddings \<Rightarrow>
                         if length embeddings < 2 then Inr []
                         else (case assign_labels cluster max_speakers embeddings of
                                 Inl e \<Rightarrow> Inl e
                               | Inr labels \<Rightarrow>
                                   frames_to_segments (map IntLabel labels) times'))))"

subsection \<open>The frame sampler as the specification words it\<close>

text \<open>
  The specification's own formula for the sampler, kept apart from \<open>slice_frames\<close>
  for comparison: both lengths are rounded to the nearest integer, windows start at
  \<open>0, hopLen, 2 * hopLen, ...\<close> and are emitted while \<open>start + frameLen \<le> len(signal)\<close>.
\<close>

definition spec_frame_sampler ::
  "rat list \<Rightarrow> int \<Rightarrow> rat \<Rightarrow> rat \<Rightarrow> rat list list \<times> (rat \<times> rat) list" where
  "spec_frame_sampler signal sampleRate frameSec hopSec =
     (let frameLen = round (frameSec * of_int sampleRate);
          hopLen = round (hopSec * of_int sampleRate);
          starts = takeWhile (\<lambda>s. s + frameLen \<le> int (length signal))
                     (map (\<lambda>k. int k * hopLen) [0..<Suc (length signal)])
      in (map (\<lambda>s. take (nat frameLen) (drop (nat s) signal)) starts,
          map (\<lambda>s. (of_int s / of_int sampleRate, of_int (s + frameLen) / of_int sampleRate))
            starts))"

subsection \<open>Auxiliary notions\<close>

text \<open>
  The number of windows of 24000 samples, 12000 samples apart, that fit into a signal
  of \<open>len\<close> samples. It is used to state what \<open>slice_frames\<close> returns with the
  constants of \<open>main\<close>.
\<close>

definition n_frames :: "nat \<Rightarrow> nat" where
  "n_frames len = (if len < 24000 then 0 else (len - 24000) div 12000 + 1)"

text \<open>
  Consecutive frames that overlap or touch: every frame starts no earlier than the one
  before it, no later than that one ends, and ends no earlier. The first two arguments
  are the range of the frame before the list.
\<close>

fun frames_chain :: "rat \<Rightarrow> rat \<Rightarrow> (rat \<times> rat) list \<Rightarrow> bool" where
  "frames_chain a e [] = True"
| "frames_chain a e (t # ts) = (a \<le> fst t \<and> fst t \<le> e \<and> e \<le> snd t \<and> frames_chain (fst t) (snd t) ts)"

text \<open>
  Consecutive frames that are a fixed hop apart: every frame starts \<open>d\<close> before the
  frame in front of it ends. The second argument is the end of the frame before the list.
\<close>

fun frames_step :: "rat \<Rightarrow> rat \<Rightarrow> (rat \<times> rat) list \<Rightarrow> bool" where
  "frames_step d e [] = True"
| "frames_step d e (t # ts) = (fst t = e - d \<and> frames_step d (snd t) ts)"

text \<open>The time covered by a segment list, and by a list of frame ranges.\<close>

definition covered :: "segment list \<Rightarrow> rat set" where
  "covered segments = (\<Union>g\<in>set segments. {start g..<end' g})"

definition frame_ranges :: "(rat \<times> rat) list \<Rightarrow> rat set" where
  "frame_ranges ts = (\<Union>t\<in>set ts. {fst t..<snd t})"

text \<open>A time stamp that \<open>round(x, 3)\<close> leaves as it is.\<close>

definition exact_ms :: "rat \<Rightarrow> bool" where
  "exact_ms x = (round3 x = x)"

text \<open>Reading a decimal string back, to show that \<open>str\<close> loses nothing on integers.\<close>

definition digit_val :: "char \<Rightarrow> nat" where
  "digit_val c = of_char c - 48"

definition nat_of_str :: "string \<Rightarrow> nat" where
  "nat_of_str s = foldl (\<lambda>a c. 10 * a + digit_val c) 0 s"

text \<open>
  A label array is a NumPy array and has one element type: all labels are integers
  or all are strings.
\<close>

fun is_int :: "label \<Rightarrow> bool" where
  "is_int (IntLabel i) = True"
| "is_int (StrLabel s) = False"

definition same_dtype :: "label list \<Rightarrow> bool" where
  "same_dtype labels = (list_all is_int labels \<or> list_all (\<lambda>l. \<not> is_int l) labels)"

subsection \<open>Agglomerative clustering as the specification describes it\<close>

text \<open>
  Modelled from the spec: the clustering itself is scikit-learn's
  \<open>AgglomerativeClustering\<close>, which is not part of the repository. The definitions
  below follow section 4.3 of the specification: cosine distance between embedding
  vectors, average linkage between clusters, every embedding a singleton cluster at the
  start, and the two clusters of smallest linkage distance merged until \<open>K\<close> clusters
  remain. Two choices are left open by the specification and fixed here: among pairs of
  equal distance the first in lexicographic order of cluster positions is merged, and a
  frame is labelled with the position of its cluster in the final list, the merged
  cluster taking the place of the first of the two.
\<close>

type_synonym embedding = "real list"

definition dot :: "embedding \<Rightarrow> embedding \<Rightarrow> real" where
  "dot u v = (\<Sum>(a, b)\<leftarrow>zip u v. a * b)"

definition cosine_distance :: "embedding \<Rightarrow> embedding \<Rightarrow> real" where
  "cosine_distance u v = 1 - dot u v / (sqrt (dot u u) * sqrt (dot v v))"

definition average_linkage :: "embedding list \<Rightarrow> nat list \<Rightarrow> nat list \<Rightarrow> real" where
  "average_linkage embeddings A B =
     (\<Sum>i\<leftarrow>A. \<Sum>j\<leftarrow>B. cosine_distance (embeddings ! i) (embeddings ! j)) /
       (real (length A) * real (length B))"

definition cluster_pairs :: "nat \<Rightarrow> (nat \<times> nat) list" where
  "cluster_pairs m = concat (map (\<lambda>a. map (\<lambda>b. (a, b)) [Suc a..<m]) [0..<m])"

definition closest_pair :: "embedding list \<Rightarrow> nat list list \<Rightarrow> nat \<times> nat" where
  "closest_pair embeddings clusters =
     arg_min_list (\<lambda>(a, b). average_linkage embeddings (clusters ! a) (clusters ! b))
       (cluster_pairs (length clusters))"

definition merge_pair :: "nat list list \<Rightarrow> nat \<times> nat \<Rightarrow> nat list list" where
  "merge_pair clusters p =
     (case p of (a, b) \<Rightarrow>
        map (\<lambda>k. if k = a then clusters ! a @ clusters ! b else clusters ! k)
          (filter (\<lambda>k. k \<noteq> b) [0..<length clusters]))"

function agglomerate :: "embedding list \<Rightarrow> int \<Rightarrow> nat list list \<Rightarrow> nat list list" where
  "agglomerate embeddings K clusters =
     (if K < int (length clusters) \<and> 2 \<le> length clusters
      then agglomerate embeddings K (merge_pair clusters (closest_pair embeddings clusters))
      else clusters)"
  by pat_completeness auto
termination
proof (relation "measure (\<lambda>(embeddings, K, clusters). length clusters)")
  show "wf (measure (\<lambda>(embeddings, K, clusters). length clusters))" by simp
next
  fix embeddings :: "embedding list" and K :: int and clusters :: "nat list list"
  assume c: "K < int (length clusters) \<and> 2 \<le> length clusters"
  let ?n = "length clusters"
  let ?p = "closest_pair embeddings clusters"
  have "0 \<in> {0..<?n}" "(0, Suc 0) \<in> Pair 0 ` {Suc 0..<?n}"
    using c by auto
  then have "(0, Suc 0) \<in> set (cluster_pairs ?n)"
    unfolding cluster_pairs_def by (simp del: atLeastLessThan_iff) blast
  then have "cluster_pairs ?n \<noteq> []" by auto
  then have "?p \<in> set (cluster_pairs ?n)"
    unfolding closest_pair_def by (rule arg_min_list_in)
  then have b: "snd ?p < ?n" by (auto simp: cluster_pairs_def)
  have "length (filter (\<lambda>k. k \<noteq> snd ?p) [0..<?n]) = card ({k. k \<noteq> snd ?p} \<inter> set [0..<?n])"
    by (rule distinct_length_filter) simp
  also have "{k. k \<noteq> snd ?p} \<inter> set [0..<?n] = {0..<?n} - {snd ?p}" by auto
  also have "card \<dots> = ?n - 1" using b by simp
  finally have "length (merge_pair clusters ?p) = ?n - 1"
    by (cases ?p) (simp add: merge_pair_def)
  then show "((embeddings, K, merge_pair clusters ?p), (embeddings, K, clusters))
      \<in> measure (\<lambda>(embeddings, K, clusters). length clusters)"
    using c by auto
qed

declare agglomerate.simps [simp del]

definition label_of :: "nat list list \<Rightarrow> nat \<Rightarrow> int" where
  "label_of clusters i = int (length (takeWhile (\<lambda>c. i \<notin> set c) clusters))"

definition agglomerative_clustering :: "int \<Rightarrow> embedding list \<Rightarrow> int list" where
  "agglomerative_clustering K embeddings =
     (let clusters = agglomerate embeddings K (map (\<lambda>i. [i]) [0..<length embeddings])
      in map (label_of clusters) [0..<length embeddings])"

definition fit_predict :: "int \<Rightarrow> embedding list \<Rightarrow> error + int list" where
  "fit_predict n_clusters embeddings = Inr (agglomerative_clustering n_clusters embeddings)"

text \<open>
  The four embeddings of the specification's scenario, and an input that leads to them:
  a signal of 60000 samples, which holds four frames, with a stand-in for the embedding
  model that tells the frames apart by their first sample.
\<close>

definition scenario_embeddings :: "embedding list" where
  "scenario_embeddings = [[1, 0], [1, 1 / 100], [0, 1], [0, 101 / 100]]"

definition scenario_audio :: "rat list" where
  "scenario_audio =
     replicate 12000 0 @ replicate 12000 1 @ replicate 12000 2 @ replicate 12000 3 @
     replicate 12000 4"

definition scenario_encoder :: "rat list \<Rightarrow> error + embedding" where
  "scenario_encoder frame = Inr (scenario_embeddings ! nat \<lfloor>hd frame\<rfloor>)"

section \<open>Properties\<close>

subsection \<open>Audio loading\<close>

text \<open>
  C3 (as amended). Loading fails with \<open>ValueError\<close> whenever the sample rate is not
  16000 Hz, whatever the channel count. At 16000 Hz a mono file is returned unchanged
  (no resampling), and a file with several channels is not rejected: it is returned with
  every sample instant replaced by the mean of its channels.
\<close>

theorem load_audio_rate_checked_channels_mixed:
  "(sr \<noteq> 16000 \<longrightarrow> load_audio_mono_16k (audio, sr) = Inl ValueError) \<and>
   load_audio_mono_16k (Mono xs, 16000) = Inr (xs, 16000) \<and>
   load_audio_mono_16k (Multi rows, 16000) = Inr (map np_mean rows, 16000)"
  by (simp add: load_audio_mono_16k_def)

theorem load_audio_rate_checked_channels_mixed_witness:
  "(8000::int) \<noteq> 16000 \<and> load_audio_mono_16k (Mono [1, 2], 8000) = Inl ValueError \<and>
   load_audio_mono_16k (Mono [1, 2], 16000) = Inr ([1, 2], 16000) \<and>
   load_audio_mono_16k (Multi [[1, 3]], 16000) = Inr (map np_mean [[1, 3]], 16000)"
  using load_audio_rate_checked_channels_mixed [of 8000 "Mono [1, 2]" "[1, 2]" "[[1, 3]]"]
  by simp

text \<open>
  C3 as stated fails: a two-channel file at 16000 Hz is loaded without any error, its
  channels averaged.
\<close>

theorem load_audio_stereo_counterexample:
  "load_audio_mono_16k (Multi [[1, 3], [2, 4]], 16000) = Inr ([2, 3], 16000)"
  by code_simp

subsection \<open>Frame slicing\<close>

lemma py_int_small: "0 \<le> q \<Longrightarrow> q < 1 \<Longrightarrow> py_int q = 0"
  by (simp add: py_int_def floor_eq_iff)

lemma slice_frames_short:
  "int (length audio) < py_int (frame_sec * of_int sr) \<Longrightarrow>
   slice_frames audio sr frame_sec hop_sec = Inr ([], [])"
  by (simp add: slice_frames_def Let_def)

text \<open>
  C5. A signal shorter than one frame gives the empty frame sequence, and the pipeline
  then returns the empty segment list as a regular result, without calling the embedding
  model or the clustering.
\<close>

theorem short_signal_empty_segments:
  "(int (length audio) < py_int (frame_sec * of_int sr) \<longrightarrow>
      slice_frames audio sr frame_sec hop_sec = Inr ([], [])) \<and>
   (load_audio_mono_16k decoded = Inr (audio', sr') \<and>
    int (length audio') < py_int (3 / 2 * of_int sr') \<longrightarrow>
      main encode_batch cluster decoded max_speakers = Inr [])"
  by (simp add: main_def slice_frames_short)

theorem short_signal_empty_segments_witness:
  "int (length [1, 2 :: rat]) < py_int (3 / 2 * of_int 16000) \<and>
   slice_frames [1, 2] 16000 (3 / 2) (3 / 4) = Inr ([], []) \<and>
   load_audio_mono_16k (Mono [1, 2], 16000) = Inr ([1, 2], 16000) \<and>
   main (\<lambda>frame. Inr frame) (\<lambda>k embeddings. Inl ValueError) (Mono [1, 2], 16000) 6 = Inr []"
  using short_signal_empty_segments [of "[1, 2]" "3 / 2" 16000 "3 / 4" "(Mono [1, 2], 16000)"
      "[1, 2]" 16000 "\<lambda>frame. Inr frame" "\<lambda>k embeddings. Inl ValueError" 6]
  by (simp add: py_int_def load_audio_mono_16k_def)

text \<open>
  C10. \<open>slice_frames\<close> is not total over the positive hop durations: at 16000 Hz a
  positive \<open>hop_sec\<close> with \<open>hop_sec * 16000 < 1\<close> gives the hop length 0, and for
  every signal at least one frame long the call ends in the \<open>ValueError\<close> of
  \<open>range\<close> with step 0 instead of returning frames.
\<close>

theorem slice_frames_zero_hop_raises:
  "0 < hop_sec \<Longrightarrow> hop_sec * 16000 < 1 \<Longrightarrow>
   py_int (frame_sec * 16000) \<le> int (length audio) \<Longrightarrow>
   slice_frames audio 16000 frame_sec hop_sec = Inl ValueError"
  by (simp add: slice_frames_def py_range_def py_int_small Let_def)

theorem slice_frames_zero_hop_raises_witness:
  "(0::rat) < 1 / 20000 \<and> (1 / 20000 :: rat) * 16000 < 1 \<and>
   py_int ((3 / 2) * 16000) \<le> int (length (replicate 24000 (0::rat))) \<and>
   slice_frames (replicate 24000 0) 16000 (3 / 2) (1 / 20000) = Inl ValueError"
  using slice_frames_zero_hop_raises [of "1 / 20000" "3 / 2" "replicate 24000 0"]
  by (simp add: py_int_def)

subsection \<open>The windows of \<open>slice_frames\<close>\<close>

lemma range_up_map:
  "0 < step \<Longrightarrow> range_up i stop step = map (\<lambda>k. i + int k * step) [0..<length (range_up i stop step)]"
proof (induction i stop step rule: range_up.induct)
  case (1 i stop step)
  show ?case
  proof (cases "i < stop")
    case True
    let ?m = "length (range_up (i + step) stop step)"
    have ih: "range_up (i + step) stop step = map (\<lambda>k. i + step + int k * step) [0..<?m]"
      using 1 True by simp
    have "range_up i stop step = i # range_up (i + step) stop step"
      using 1(2) True by simp
    also have "\<dots> = i # map (\<lambda>k. i + step + int k * step) [0..<?m]"
      using ih by simp
    also have "\<dots> = map (\<lambda>k. i + int k * step) [0..<Suc ?m]"
      by (simp add: upt_rec[of 0] map_Suc_upt[symmetric] algebra_simps del: upt_Suc)
    finally show ?thesis using 1(2) True by simp
  next
    case False
    then show ?thesis by simp
  qed
qed

lemma range_up_length:
  "0 < step \<Longrightarrow> k < length (range_up i stop step) \<longleftrightarrow> i + int k * step < stop"
proof (induction i stop step arbitrary: k rule: range_up.induct)
  case (1 i stop step)
  show ?case
  proof (cases "i < stop")
    case True
    show ?thesis
    proof (cases k)
      case 0
      then show ?thesis using True 1(2) by simp
    next
      case (Suc j)
      have "j < length (range_up (i + step) stop step) \<longleftrightarrow> i + step + int j * step < stop"
        using 1 True by simp
      then show ?thesis using True 1(2) Suc by (simp add: algebra_simps)
    qed
  next
    case False
    have "0 \<le> int k * step" using 1(2) by simp
    then show ?thesis using False by simp
  qed
qed

lemma frames_loop_ok:
  "sr \<noteq> 0 \<Longrightarrow> frames_loop audio sr frame_len starts =
     Inr (map (\<lambda>st. py_slice audio st (st + frame_len)) starts,
          map (\<lambda>st. (of_int st / of_int sr, of_int (st + frame_len) / of_int sr)) starts)"
  by (induction starts) auto

lemma slice_frames_pos_hop:
  assumes hop: "0 < py_int (hop_sec * of_int sr)"
  shows "let frame_len = py_int (frame_sec * of_int sr); hop_len = py_int (hop_sec * of_int sr)
     in \<exists>n. (\<forall>k. k < n \<longleftrightarrow> int k * hop_len + frame_len \<le> int (length audio)) \<and>
        slice_frames audio sr frame_sec hop_sec =
          Inr (map (\<lambda>k. py_slice audio (int k * hop_len) (int k * hop_len + frame_len)) [0..<n],
               map (\<lambda>k. (of_int (int k * hop_len) / of_int sr,
                          of_int (int k * hop_len + frame_len) / of_int sr)) [0..<n])"
proof -
  define frame_len where "frame_len = py_int (frame_sec * of_int sr)"
  define hop_len where "hop_len = py_int (hop_sec * of_int sr)"
  have hop_pos: "0 < hop_len" using hop by (simp add: hop_len_def)
  have sr: "sr \<noteq> 0"
  proof
    assume "sr = 0"
    then have "hop_len = 0" by (simp add: hop_len_def py_int_def)
    then show False using hop_pos by simp
  qed
  let ?P = "\<lambda>n. (\<forall>k. k < n \<longleftrightarrow> int k * hop_len + frame_len \<le> int (length audio)) \<and>
        slice_frames audio sr frame_sec hop_sec =
          Inr (map (\<lambda>k. py_slice audio (int k * hop_len) (int k * hop_len + frame_len)) [0..<n],
               map (\<lambda>k. (of_int (int k * hop_len) / of_int sr,
                          of_int (int k * hop_len + frame_len) / of_int sr)) [0..<n])"
  have "\<exists>n. ?P n"
  proof (cases "int (length audio) < frame_len")
    case True
    have "\<And>k. \<not> int k * hop_len + frame_len \<le> int (length audio)"
    proof -
      fix k
      have "0 \<le> int k * hop_len" using hop_pos by simp
      then show "\<not> int k * hop_len + frame_len \<le> int (length audio)" using True by linarith
    qed
    moreover have "slice_frames audio sr frame_sec hop_sec = Inr ([], [])"
      using True by (simp add: slice_frames_def frame_len_def Let_def)
    ultimately have "?P 0" by simp
    then show ?thesis ..
  next
    case False
    let ?stop = "int (length audio) - frame_len + 1"
    let ?starts = "range_up 0 ?stop hop_len"
    let ?n = "length ?starts"
    have starts: "?starts = map (\<lambda>k. int k * hop_len) [0..<?n]"
      using range_up_map[OF hop_pos, of 0 ?stop] by simp
    have len: "k < ?n \<longleftrightarrow> int k * hop_len + frame_len \<le> int (length audio)" for k
    proof -
      have "k < ?n \<longleftrightarrow> 0 + int k * hop_len < ?stop"
        by (rule range_up_length[OF hop_pos])
      also have "\<dots> \<longleftrightarrow> int k * hop_len + frame_len \<le> int (length audio)"
        by linarith
      finally show ?thesis .
    qed
    have "slice_frames audio sr frame_sec hop_sec = frames_loop audio sr frame_len ?starts"
      using False hop_pos
      by (simp add: slice_frames_def frame_len_def[symmetric] hop_len_def[symmetric] py_range_def Let_def)
    also have "\<dots> = frames_loop audio sr frame_len (map (\<lambda>k. int k * hop_len) [0..<?n])"
      using starts by simp
    also have "\<dots> = Inr (map (\<lambda>k. py_slice audio (int k * hop_len) (int k * hop_len + frame_len)) [0..<?n],
               map (\<lambda>k. (of_int (int k * hop_len) / of_int sr,
                          of_int (int k * hop_len + frame_len) / of_int sr)) [0..<?n])"
      by (simp add: frames_loop_ok[OF sr] o_def)
    finally have "?P ?n" using len by blast
    then show ?thesis ..
  qed
  then show ?thesis
    unfolding Let_def frame_len_def hop_len_def .
qed

lemma frames_loop_fp_ok:
  "sr \<noteq> 0 \<Longrightarrow> frames_loop_fp float_div audio sr frame_len starts =
     Inr (map (\<lambda>st. py_slice audio st (st + frame_len)) starts,
          map (\<lambda>st. (float_div st sr, float_div (st + frame_len) sr)) starts)"
  by (induction starts) auto

lemma frames_loop_fp_exact:
  "frames_loop_fp (\<lambda>a b. of_int a / of_int b) audio sr frame_len starts =
     frames_loop audio sr frame_len starts"
  by (induction starts) auto

lemma slice_frames_fp_exact:
  "slice_frames_fp (\<lambda>x n. Some (x * of_int n)) (\<lambda>a b. of_int a / of_int b)
     audio sr frame_sec hop_sec = slice_frames audio sr frame_sec hop_sec"
  by (simp add: slice_frames_fp_def slice_frames_def frames_loop_fp_exact Let_def
      split: sum.splits)

lemma slice_frames_fp_pos_hop:
  assumes p: "float_mul frame_sec sr = Some p" and h: "float_mul hop_sec sr = Some h"
    and hop: "0 < py_int h" and sr: "sr \<noteq> 0"
  shows "let frame_len = py_int p; hop_len = py_int h
     in \<exists>n. (\<forall>k. k < n \<longleftrightarrow> int k * hop_len + frame_len \<le> int (length audio)) \<and>
        slice_frames_fp float_mul float_div audio sr frame_sec hop_sec =
          Inr (map (\<lambda>k. py_slice audio (int k * hop_len) (int k * hop_len + frame_len)) [0..<n],
               map (\<lambda>k. (float_div (int k * hop_len) sr,
                          float_div (int k * hop_len + frame_len) sr)) [0..<n])"
proof -
  define frame_len where "frame_len = py_int p"
  define hop_len where "hop_len = py_int h"
  have hop_pos: "0 < hop_len" using hop by (simp add: hop_len_def)
  let ?P = "\<lambda>n. (\<forall>k. k < n \<longleftrightarrow> int k * hop_len + frame_len \<le> int (length audio)) \<and>
        slice_frames_fp float_mul float_div audio sr frame_sec hop_sec =
          Inr (map (\<lambda>k. py_slice audio (int k * hop_len) (int k * hop_len + frame_len)) [0..<n],
               map (\<lambda>k. (float_div (int k * hop_len) sr,
                          float_div (int k * hop_len + frame_len) sr)) [0..<n])"
  have "\<exists>n. ?P n"
  proof (cases "int (length audio) < frame_len")
    case True
    have "\<not> int k * hop_len + frame_len \<le> int (length audio)" for k
    proof -
      have "0 \<le> int k * hop_len" using hop_pos by simp
      then show ?thesis using True by linarith
    qed
    moreover have "slice_frames_fp float_mul float_div audio sr frame_sec hop_sec = Inr ([], [])"
      using True by (simp add: slice_frames_fp_def p h frame_len_def Let_def)
    ultimately have "?P 0" by simp
    then show ?thesis ..
  next
    case False
    let ?stop = "int (length audio) - frame_len + 1"
    let ?starts = "range_up 0 ?stop hop_len"
    let ?n = "length ?starts"
    have starts: "?starts = map (\<lambda>k. int k * hop_len) [0..<?n]"
      using range_up_map[OF hop_pos, of 0 ?stop] by simp
    have len: "k < ?n \<longleftrightarrow> int k * hop_len + frame_len \<le> int (length audio)" for k
    proof -
      have "k < ?n \<longleftrightarrow> 0 + int k * hop_len < ?stop"
        by (rule range_up_length[OF hop_pos])
      also have "\<dots> \<longleftrightarrow> int k * hop_len + frame_len \<le> int (length audio)"
        by linarith
      finally show ?thesis .
    qed
    have rng: "py_range ?stop hop_len = Inr ?starts"
      using hop_pos by (simp add: py_range_def)
    have "slice_frames_fp float_mul float_div audio sr frame_sec hop_sec =
        frames_loop_fp float_div audio sr frame_len ?starts"
      unfolding slice_frames_fp_def p h option.case Let_def
        frame_len_def[symmetric] hop_len_def[symmetric] rng
      using False by simp
    also have "\<dots> = frames_loop_fp float_div audio sr frame_len (map (\<lambda>k. int k * hop_len) [0..<?n])"
      using starts by simp
    also have "\<dots> = Inr (map (\<lambda>k. py_slice audio (int k * hop_len) (int k * hop_len + frame_len)) [0..<?n],
               map (\<lambda>k. (float_div (int k * hop_len) sr,
                          float_div (int k * hop_len + frame_len) sr)) [0..<?n])"
      by (simp add: frames_loop_fp_ok[OF sr] o_def)
    finally have "?P ?n" using len by blast
    then show ?thesis ..
  qed
  then show ?thesis
    unfolding Let_def frame_len_def hop_len_def .
qed

text \<open>
  C4 (as amended). The two lengths are the float products cut off towards zero, not
  rounded: \<open>frame_len = int(frame_sec * sr)\<close> and \<open>hop_len = int(hop_sec * sr)\<close>.
  For every signal and all durations whose products with the sample rate are finite,
  whenever the hop length is at least 1 (and the sample rate is not 0),
  \<open>slice_frames\<close> returns exactly the windows that start at the offsets
  \<open>k * hop_len\<close> with \<open>k * hop_len + frame_len \<le> len(audio)\<close>, in increasing order of
  \<open>k\<close>, each with the two quotients \<open>start / sr\<close> and \<open>(start + frame_len) / sr\<close>.
  The statement is about \<open>slice_frames_fp\<close> and holds for every float product and
  quotient.
\<close>

theorem slice_frames_windows:
  assumes p: "float_mul frame_sec sr = Some p" and h: "float_mul hop_sec sr = Some h"
    and hop: "0 < py_int h" and sr: "sr \<noteq> 0"
  shows "let frame_len = py_int p; hop_len = py_int h
     in \<exists>n. (\<forall>k. k < n \<longleftrightarrow> int k * hop_len + frame_len \<le> int (length audio)) \<and>
        slice_frames_fp float_mul float_div audio sr frame_sec hop_sec =
          Inr (map (\<lambda>k. py_slice audio (int k * hop_len) (int k * hop_len + frame_len)) [0..<n],
               map (\<lambda>k. (float_div (int k * hop_len) sr,
                          float_div (int k * hop_len + frame_len) sr)) [0..<n])"
  using p h hop sr by (rule slice_frames_fp_pos_hop)

theorem slice_frames_windows_witness:
  "(\<lambda>x n. Some (x * of_int n)) (1 / 2 :: rat) (4 :: int) = Some 2 \<and>
   (\<lambda>x n. Some (x * of_int n)) (1 / 4 :: rat) (4 :: int) = Some 1 \<and>
   0 < py_int 1 \<and> (4 :: int) \<noteq> 0 \<and>
   slice_frames_fp (\<lambda>x n. Some (x * of_int n)) (\<lambda>a b. of_int a / of_int b)
     [1, 2, 3] 4 (1 / 2) (1 / 4) =
     Inr ([[1, 2], [2, 3]], [(0, 1 / 2), (1 / 4, 3 / 4)])"
proof -
  let ?mul = "\<lambda>(x::rat) (n::int). Some (x * of_int n)"
  let ?div = "\<lambda>(a::int) (b::int). (of_int a / of_int b :: rat)"
  have p: "?mul (1 / 2) 4 = Some 2" and h: "?mul (1 / 4) 4 = Some 1" by simp_all
  have hop: "0 < py_int 1" by (simp add: py_int_def)
  have fl: "py_int 2 = 2" "py_int 1 = 1" by (simp_all add: py_int_def)
  from slice_frames_windows [of ?mul "1 / 2" 4 2 "1 / 4" 1 "[1, 2, 3]" ?div, OF p h hop]
  obtain n where n: "\<forall>k. k < n \<longleftrightarrow> int k * 1 + 2 \<le> int (length [1, 2, 3 :: rat])"
    and r: "slice_frames_fp ?mul ?div [1, 2, 3] 4 (1 / 2) (1 / 4) =
          Inr (map (\<lambda>k. py_slice [1, 2, 3] (int k * 1) (int k * 1 + 2)) [0..<n],
               map (\<lambda>k. (?div (int k * 1) 4, ?div (int k * 1 + 2) 4)) [0..<n])"
    unfolding Let_def fl by auto
  have "1 < n" using n by simp
  moreover have "\<not> 2 < n" using n by simp
  ultimately have "n = 2" by simp
  then have "[0..<n] = [0, 1]" by (simp add: upt_rec)
  then show ?thesis using hop r by (simp add: py_slice_def)
qed

text \<open>
  C4 as stated fails: for \<open>frame_sec = hop_sec = 0.0001\<close> at 16000 Hz the product is 1.6;
  the code cuts windows of length 1 at every sample, where rounding gives length 2 and
  hop 2.
\<close>

theorem slice_frames_truncates_counterexample:
  "slice_frames [1, 2, 3] 16000 (1 / 10000) (1 / 10000) =
     Inr ([[1], [2], [3]], [(0, 1 / 16000), (1 / 16000, 2 / 16000), (2 / 16000, 3 / 16000)]) \<and>
   spec_frame_sampler [1, 2, 3] 16000 (1 / 10000) (1 / 10000) = ([[1, 2]], [(0, 2 / 16000)])"
  by code_simp

subsection \<open>The pipeline with the constants of \<open>main\<close>\<close>

lemma window_count_unique:
  assumes "\<forall>k. k < n \<longleftrightarrow> P k" "\<forall>k. k < m \<longleftrightarrow> P k"
  shows "n = (m::nat)"
proof -
  have "\<forall>k. k < n \<longleftrightarrow> k < m" using assms by simp
  then show ?thesis by (meson linorder_neqE_nat order_less_irrefl)
qed
lemma n_frames_iff: "k < n_frames len \<longleftrightarrow> int k * 12000 + 24000 \<le> int len"
proof -
  have i: "int k * 12000 + 24000 \<le> int len \<longleftrightarrow> k * 12000 + 24000 \<le> len"
    by linarith
  show ?thesis
  proof (cases "len < 24000")
    case True
    then show ?thesis unfolding i by (simp add: n_frames_def)
  next
    case False
    have "k < (len - 24000) div 12000 + 1 \<longleftrightarrow> k \<le> (len - 24000) div 12000"
      by linarith
    also have "\<dots> \<longleftrightarrow> k * 12000 \<le> len - 24000"
      by (simp add: less_eq_div_iff_mult_less_eq)
    also have "\<dots> \<longleftrightarrow> k * 12000 + 24000 \<le> len"
      using False by linarith
    finally show ?thesis unfolding i using False by (simp add: n_frames_def)
  qed
qed

lemma py_int_frame: "py_int (3 / 2 * 16000) = 24000" "py_int (3 / 4 * 16000) = 12000"
  by (simp_all add: py_int_def)

lemma slice_frames_16k:
  "slice_frames audio 16000 (3 / 2) (3 / 4) =
     Inr (map (\<lambda>k. py_slice audio (int k * 12000) (int k * 12000 + 24000)) [0..<n_frames (length audio)],
          map (\<lambda>k. (3 * of_nat k / 4, 3 * of_nat k / 4 + 3 / 2)) [0..<n_frames (length audio)])"
proof -
  have h: "0 < py_int (3 / 4 * of_int 16000)" by (simp add: py_int_def)
  from slice_frames_pos_hop [OF h, of "3 / 2" audio]
  obtain n where n: "\<forall>k. k < n \<longleftrightarrow> int k * 12000 + 24000 \<le> int (length audio)"
    and r: "slice_frames audio 16000 (3 / 2) (3 / 4) =
          Inr (map (\<lambda>k. py_slice audio (int k * 12000) (int k * 12000 + 24000)) [0..<n],
               map (\<lambda>k. (of_int (int k * 12000) / of_int 16000,
                          of_int (int k * 12000 + 24000) / of_int 16000)) [0..<n])"
    using py_int_frame by (auto simp: Let_def)
  have "n = n_frames (length audio)"
    by (rule window_count_unique[of n "\<lambda>k. int k * 12000 + 24000 \<le> int (length audio)"])
      (simp_all add: n n_frames_iff)
  moreover have "\<And>k. (of_int (int k * 12000) / of_int 16000 :: rat) = 3 * of_nat k / 4"
    by simp
  moreover have "\<And>k. (of_int (int k * 12000 + 24000) / of_int 16000 :: rat) = 3 * of_nat k / 4 + 3 / 2"
    by (simp add: add_divide_distrib)
  ultimately show ?thesis using r by simp
qed

lemma extract_embeddings_length:
  "extract_embeddings encode_batch frames = Inr embeddings \<Longrightarrow> length embeddings = length frames"
  by (induction frames arbitrary: embeddings) (auto split: sum.splits)

lemma load_audio_sr: "load_audio_mono_16k decoded = Inr (audio, sr) \<Longrightarrow> sr = 16000"
  by (auto simp: load_audio_mono_16k_def Let_def split: prod.splits if_splits)
lemma round_half_even_of_int: "round_half_even (of_int m) = m"
  by (simp add: round_half_even_def)

lemma round3_milli: "round3 (of_int m / 1000) = of_int m / 1000"
  by (simp add: round3_def round_half_even_of_int)

lemma round3_idem: "round3 (round3 x) = round3 x"
  unfolding round3_def[of x] by (rule round3_milli)

lemma round3_frame_start: "round3 (3 * of_nat k / 4) = 3 * of_nat k / 4"
proof -
  have e: "(3 * of_nat k / 4 :: rat) = of_int (750 * int k) / 1000" by simp
  show ?thesis by (simp only: e round3_milli)
qed

lemma round3_frame_end: "round3 (3 * of_nat k / 4 + 3 / 2) = 3 * of_nat k / 4 + 3 / 2"
proof -
  have e: "(3 * of_nat k / 4 + 3 / 2 :: rat) = of_int (750 * int k + 1500) / 1000"
    by (simp add: add_divide_distrib)
  show ?thesis by (simp only: e round3_milli)
qed

lemma str_int_0: "str_int 0 = ''0''"
  by code_simp

lemma merge_loop_const:
  "length ls \<le> length ts \<Longrightarrow> set ls \<subseteq> {c} \<Longrightarrow>
   merge_loop c s e ls ts = Inr [mk_segment s (last (e # map snd (take (length ls) ts))) c]"
proof (induction ls arbitrary: e ts)
  case Nil
  then show ?case by simp
next
  case (Cons l ls)
  then obtain t ts' where ts: "ts = t # ts'" by (cases ts) auto
  with Cons show ?case by simp
qed

lemma assign_labels_one:
  "max_speakers \<le> 1 \<Longrightarrow> assign_labels cluster max_speakers embeddings = Inr (replicate (length embeddings) 0)"
  by (cases embeddings) (auto simp: assign_labels_def n_clusters_of_def Let_def min_def)
lemma slice_24000:
  "slice_frames (replicate 24000 0) 16000 (3 / 2) (3 / 4) = Inr ([replicate 24000 0], [(0, 3 / 2)])"
  by (simp add: slice_frames_16k n_frames_def py_slice_def)

lemma upt2: "[0..<2] = [0, Suc 0]" by (simp add: upt_rec)

lemma slice_36000:
  "slice_frames (replicate 36000 0) 16000 (3 / 2) (3 / 4) =
     Inr ([replicate 24000 0, replicate 24000 0], [(0, 3 / 2), (3 / 4, 9 / 4)])"
  by (simp add: slice_frames_16k n_frames_def py_slice_def upt2)

lemma load_mono: "load_audio_mono_16k (Mono xs, 16000) = Inr (xs, 16000)"
  by (simp add: load_audio_mono_16k_def)

text \<open>
  C1 (as amended). For an input that yields exactly one frame, and hence exactly one
  embedding, the pipeline returns the empty segment list: the guard of lines 123--127
  ends the run before any label is assigned.
\<close>

theorem one_frame_empty_segments:
  assumes "load_audio_mono_16k decoded = Inr (audio, sr)"
    and "slice_frames audio sr (3 / 2) (3 / 4) = Inr (frames, times')"
    and "length frames = 1"
    and "extract_embeddings encode_batch frames = Inr embeddings"
  shows "main encode_batch cluster decoded max_speakers = Inr []"
  using assms extract_embeddings_length[OF assms(4)] by (simp add: main_def)

theorem one_frame_empty_segments_witness:
  "load_audio_mono_16k (Mono (replicate 24000 0), 16000) = Inr (replicate 24000 0, 16000) \<and>
   slice_frames (replicate 24000 0) 16000 (3 / 2) (3 / 4) = Inr ([replicate 24000 0], [(0, 3 / 2)]) \<and>
   length [replicate 24000 (0::rat)] = 1 \<and>
   extract_embeddings (\<lambda>frame. Inr (length frame)) [replicate 24000 0] = Inr [24000] \<and>
   main (\<lambda>frame. Inr (length frame)) (\<lambda>k embeddings. Inl ValueError)
     (Mono (replicate 24000 0), 16000) 6 = Inr []"
  using one_frame_empty_segments [of "(Mono (replicate 24000 0), 16000)" "replicate 24000 0" 16000
      "[replicate 24000 0]" "[(0, 3 / 2)]" "\<lambda>frame. Inr (length frame)" "[24000]"
      "\<lambda>k embeddings. Inl ValueError" 6]
  by (simp add: load_mono slice_24000)

text \<open>
  C1 as stated fails: a signal of 24000 samples yields exactly one frame, spanning
  \<open>[0, 1.5)\<close>, and the output holds no segment at all.
\<close>

theorem one_frame_counterexample:
  "slice_frames (replicate 24000 0) 16000 (3 / 2) (3 / 4) =
     Inr ([replicate 24000 0], [(0, 3 / 2)]) \<and>
   main (\<lambda>frame. Inr frame) (\<lambda>k embeddings. Inr (replicate (length embeddings) 0))
     (Mono (replicate 24000 0), 16000) 6 = Inr []"
  by (simp add: main_def load_mono slice_24000)

text \<open>
  C7. With \<open>max_speakers = 1\<close> and at least two frames, the output is the single
  segment from the start of the first frame to the end of the last frame, labelled
  \<open>0\<close>.
\<close>

theorem single_speaker_single_segment:
  assumes "load_audio_mono_16k decoded = Inr (audio, sr)"
    and "slice_frames audio sr (3 / 2) (3 / 4) = Inr (frames, times')"
    and "2 \<le> length frames"
    and "extract_embeddings encode_batch frames = Inr embeddings"
  shows "main encode_batch cluster decoded 1 =
     Inr [\<lparr>start = fst (hd times'), end' = snd (last times'), label = ''0''\<rparr>]"
proof -
  have sr: "sr = 16000" using assms(1) by (rule load_audio_sr)
  define n where "n = n_frames (length audio)"
  let ?f = "\<lambda>k::nat. (3 * of_nat k / 4 :: rat, 3 * of_nat k / 4 + 3 / 2 :: rat)"
  have times: "times' = map ?f [0..<n]" and "length frames = n"
    using assms(2) unfolding sr slice_frames_16k n_def by auto
  then have n2: "2 \<le> n" using assms(3) by simp
  have emb: "length embeddings = n"
    using extract_embeddings_length[OF assms(4)] \<open>length frames = n\<close> by simp
  obtain m where m: "n = Suc (Suc m)" using n2 by (metis add_2_eq_Suc le_Suc_ex)
  have upt: "[0..<n] = 0 # [Suc 0..<n]" using m by (simp add: upt_rec)
  have tl: "times' = ?f 0 # map ?f [Suc 0..<n]" using times upt by simp
  have last: "last times' = ?f (Suc m)" using times m by (simp add: last_map del: upt_Suc)
  have "frames_to_segments (map IntLabel (replicate n 0)) times' =
      merge_loop (IntLabel 0) (fst (?f 0)) (snd (?f 0))
        (replicate (Suc m) (IntLabel 0)) (map ?f [Suc 0..<n])"
    unfolding tl by (simp add: frames_to_segments_def m)
  also have "\<dots> = Inr [mk_segment (fst (?f 0))
      (last (snd (?f 0) # map snd (take (length (replicate (Suc m) (IntLabel 0))) (map ?f [Suc 0..<n])))) (IntLabel 0)]"
    by (rule merge_loop_const) (auto simp: m)
  also have "(last (snd (?f 0) # map snd (take (length (replicate (Suc m) (IntLabel 0))) (map ?f [Suc 0..<n]))))
      = snd (?f (Suc m))"
    by (simp add: m last_map del: upt_Suc)
  finally have seg: "frames_to_segments (map IntLabel (replicate n 0)) times' =
     Inr [mk_segment 0 (3 * of_nat (Suc m) / 4 + 3 / 2) (IntLabel 0)]" by simp
  have hd: "fst (hd times') = 0" unfolding tl by simp
  have lst: "snd (last times') = 3 * of_nat (Suc m) / 4 + 3 / 2" unfolding last by simp
  have mk: "mk_segment 0 (3 * of_nat (Suc m) / 4 + 3 / 2) (IntLabel 0) =
     \<lparr>start = fst (hd times'), end' = snd (last times'), label = ''0''\<rparr>"
    unfolding mk_segment_def hd lst round3_frame_end
    using round3_frame_start[of 0] by (simp add: str_int_0)
  have ne: "frames \<noteq> []" using assms(3) by auto
  have seg': "frames_to_segments (map IntLabel (replicate n 0)) times' =
     Inr [\<lparr>start = fst (hd times'), end' = snd (last times'), label = ''0''\<rparr>]"
    using seg mk by simp
  show ?thesis
    using assms(1,2,4) emb n2 seg' ne
    by (simp add: main_def assign_labels_one)
qed

theorem single_speaker_single_segment_witness:
  "load_audio_mono_16k (Mono (replicate 36000 0), 16000) = Inr (replicate 36000 0, 16000) \<and>
   slice_frames (replicate 36000 0) 16000 (3 / 2) (3 / 4) =
     Inr ([replicate 24000 0, replicate 24000 0], [(0, 3 / 2), (3 / 4, 9 / 4)]) \<and>
   2 \<le> length [replicate 24000 (0::rat), replicate 24000 0] \<and>
   extract_embeddings (\<lambda>frame. Inr (length frame)) [replicate 24000 0, replicate 24000 0] =
     Inr [24000, 24000] \<and>
   main (\<lambda>frame. Inr (length frame)) (\<lambda>k embeddings. Inl ValueError)
     (Mono (replicate 36000 0), 16000) 1 = Inr [\<lparr>start = 0, end' = 9 / 4, label = ''0''\<rparr>]"
  using single_speaker_single_segment [of "(Mono (replicate 36000 0), 16000)" "replicate 36000 0" 16000
      "[replicate 24000 0, replicate 24000 0]" "[(0, 3 / 2), (3 / 4, 9 / 4)]"
      "\<lambda>frame. Inr (length frame)" "[24000, 24000]" "\<lambda>k embeddings. Inl ValueError"]
  by (simp add: load_mono slice_36000)

subsection \<open>Integers as decimal strings\<close>

lemma digit_val_digit_char: "d < 10 \<Longrightarrow> digit_val (digit_char d) = d"
  by (simp add: digit_val_def digit_char_def)

lemma nat_of_str_snoc: "nat_of_str (s @ [c]) = 10 * nat_of_str s + digit_val c"
  by (simp add: nat_of_str_def)

lemma nat_of_str_nat: "nat_of_str (str_nat n) = n"
proof (induction n rule: str_nat.induct)
  case (1 n)
  show ?case
  proof (cases "n < 10")
    case True
    then show ?thesis
      by (simp add: str_nat.simps[of n] nat_of_str_def digit_val_digit_char)
  next
    case False
    then show ?thesis
      using 1 by (simp add: str_nat.simps[of n] nat_of_str_snoc digit_val_digit_char)
  qed
qed

lemma str_nat_inj: "str_nat m = str_nat n \<Longrightarrow> m = n"
  by (metis nat_of_str_nat)

lemma digit_char_not_minus: "d < 10 \<Longrightarrow> digit_char d \<noteq> CHR ''-''"
proof
  assume d: "d < 10" and "digit_char d = CHR ''-''"
  then have "of_char (digit_char d) = (of_char (CHR ''-'') :: nat)" by simp
  then show False using d by (simp add: digit_char_def)
qed

lemma hd_str_nat: "str_nat n \<noteq> [] \<and> hd (str_nat n) \<noteq> CHR ''-''"
proof (induction n rule: str_nat.induct)
  case (1 n)
  show ?case
  proof (cases "n < 10")
    case True
    then show ?thesis by (simp add: str_nat.simps[of n] digit_char_not_minus)
  next
    case False
    then show ?thesis using 1 by (simp add: str_nat.simps[of n])
  qed
qed

lemma str_int_inj: "str_int i = str_int j \<Longrightarrow> i = j"
proof -
  assume e: "str_int i = str_int j"
  consider "i < 0" "j < 0" | "0 \<le> i" "0 \<le> j" | "i < 0" "0 \<le> j" | "0 \<le> i" "j < 0"
    by linarith
  then show ?thesis
  proof cases
    case 1
    then have "str_nat (nat (- i)) = str_nat (nat (- j))" using e by (simp add: str_int_def)
    then have "nat (- i) = nat (- j)" by (rule str_nat_inj)
    then show ?thesis using 1 by simp
  next
    case 2
    then have "str_nat (nat i) = str_nat (nat j)" using e by (simp add: str_int_def)
    then have "nat i = nat j" by (rule str_nat_inj)
    then show ?thesis using 2 by simp
  next
    case 3
    then have "CHR ''-'' # str_nat (nat (- i)) = str_nat (nat j)" using e by (simp add: str_int_def)
    then have "hd (str_nat (nat j)) = CHR ''-''" by (metis list.sel(1))
    then show ?thesis using hd_str_nat by blast
  next
    case 4
    then have "str_nat (nat i) = CHR ''-'' # str_nat (nat (- j))" using e by (simp add: str_int_def)
    then have "hd (str_nat (nat i)) = CHR ''-''" by (metis list.sel(1))
    then show ?thesis using hd_str_nat by blast
  qed
qed

subsection \<open>Sorted segments that cover the frames\<close>

lemma covered_simps [simp]:
  "covered [] = {}" "covered (g # gs) = {start g..<end' g} \<union> covered gs"
  by (simp_all add: covered_def)

lemma frame_ranges_simps [simp]:
  "frame_ranges [] = {}" "frame_ranges (t # ts) = {fst t..<snd t} \<union> frame_ranges ts"
  by (simp_all add: frame_ranges_def)

lemma merge_loop_cover:
  assumes "length ls \<le> length ts" "s \<le> a" "a \<le> e" "frames_chain a e ts"
    and "exact_ms s" "exact_ms e" "\<forall>t\<in>set ts. exact_ms (fst t) \<and> exact_ms (snd t)"
  shows "\<exists>segs. merge_loop c s e ls ts = Inr segs \<and>
           covered segs = {s..<e} \<union> frame_ranges (take (length ls) ts) \<and>
           (\<forall>g\<in>set segs. s \<le> start g) \<and> sorted (map start segs)"
  using assms
proof (induction ls arbitrary: c s e a ts)
  case Nil
  then show ?case by (simp add: mk_segment_def exact_ms_def)
next
  case (Cons l ls)
  then obtain t ts' where ts: "ts = t # ts'" by (cases ts) auto
  obtain a' b' where t: "t = (a', b')" by (cases t)
  have ch: "a \<le> a'" "a' \<le> e" "e \<le> b'" "frames_chain a' b' ts'"
    using Cons.prems(4) ts t by auto
  have len: "length ls \<le> length ts'" using Cons.prems(1) ts by simp
  have ex: "exact_ms a'" "exact_ms b'" "\<forall>t\<in>set ts'. exact_ms (fst t) \<and> exact_ms (snd t)"
    using Cons.prems(7) ts t by auto
  show ?case
  proof (cases "l = c")
    case True
    have "s \<le> a'" using Cons.prems(2) ch(1) by simp
    moreover have "a' \<le> b'" using ch(2,3) by simp
    ultimately obtain segs where segs: "merge_loop c s b' ls ts' = Inr segs"
      "covered segs = {s..<b'} \<union> frame_ranges (take (length ls) ts')"
      "\<forall>g\<in>set segs. s \<le> start g" "sorted (map start segs)"
      using Cons.IH[of ts' s a' b' c] len ch(4) Cons.prems(5) ex by blast
    have iv: "{s..<b'} = {s..<e} \<union> {a'..<b'}"
      using \<open>s \<le> a'\<close> ch(2,3) by auto
    have "covered segs = {s..<e} \<union> frame_ranges (take (length (l # ls)) ts)"
      unfolding segs(2) iv ts t by (simp add: Un_assoc)
    moreover have "merge_loop c s e (l # ls) ts = Inr segs"
      using segs(1) True ts t by simp
    ultimately show ?thesis using segs(3,4) by blast
  next
    case False
    have "a' \<le> b'" using ch(2,3) by simp
    then obtain segs where segs: "merge_loop l a' b' ls ts' = Inr segs"
      "covered segs = {a'..<b'} \<union> frame_ranges (take (length ls) ts')"
      "\<forall>g\<in>set segs. a' \<le> start g" "sorted (map start segs)"
      using Cons.IH[of ts' a' a' b' l] len ch(4) ex by blast
    have s: "s \<le> a'" using Cons.prems(2) ch(1) by simp
    have st: "start (mk_segment s e c) = s" "end' (mk_segment s e c) = e"
      using Cons.prems(5,6) by (simp_all add: mk_segment_def exact_ms_def)
    have "\<forall>g\<in>set segs. s \<le> start g" using segs(3) s by auto
    then show ?thesis using segs False ts t st by (auto simp: Un_assoc)
  qed
qed

lemma exact_ms_frame: "exact_ms (3 * of_nat k / 4)" "exact_ms (3 * of_nat k / 4 + 3 / 2)"
  by (simp_all add: exact_ms_def round3_frame_start round3_frame_end)

lemma frames_chain_16k:
  "frames_chain (3 * of_nat j / 4) (3 * of_nat j / 4 + 3 / 2)
     (map (\<lambda>k. (3 * of_nat k / 4, 3 * of_nat k / 4 + 3 / 2)) [Suc j..<n])"
proof (induction "n - Suc j" arbitrary: j)
  case 0
  then show ?case by simp
next
  case (Suc d)
  then have lt: "Suc j < n" and d: "d = n - Suc (Suc j)" by auto
  have "[Suc j..<n] = Suc j # [Suc (Suc j)..<n]" using lt by (simp add: upt_rec)
  then show ?case using Suc(1)[OF d] by simp
qed

lemma merge_loop_labels:
  "merge_loop c s e ls ts = Inr segs \<Longrightarrow> map label segs = map py_str (remdups_adj (c # ls))"
proof (induction ls arbitrary: c s e ts segs)
  case Nil
  then show ?case by (auto simp: mk_segment_def)
next
  case (Cons l ls)
  then obtain t ts' where ts: "ts = t # ts'" by (cases ts) auto
  show ?case
  proof (cases "l = c")
    case True
    then have "merge_loop c s (snd t) ls ts' = Inr segs" using Cons.prems ts by simp
    then have "map label segs = map py_str (remdups_adj (c # ls))" by (rule Cons.IH)
    then show ?thesis using True by simp
  next
    case False
    then obtain segs' where segs': "merge_loop l (fst t) (snd t) ls ts' = Inr segs'"
      and segs: "segs = mk_segment s e c # segs'"
      using Cons.prems ts by (auto split: sum.splits)
    have "map label segs' = map py_str (remdups_adj (l # ls))" using segs' by (rule Cons.IH)
    then show ?thesis using False segs by (simp add: mk_segment_def)
  qed
qed

lemma merge_loop_overlap:
  assumes "length ls \<le> length ts" "frames_step d e ts"
    and "exact_ms s" "exact_ms e" "\<forall>t\<in>set ts. exact_ms (fst t) \<and> exact_ms (snd t)"
    and "inj_on py_str (insert c (set ls))"
  shows "\<exists>segs. merge_loop c s e ls ts = Inr segs \<and> segs \<noteq> [] \<and> start (hd segs) = s \<and>
           label (hd segs) = py_str c \<and>
           successively (\<lambda>g h. start h = end' g - d \<and> label h \<noteq> label g) segs"
  using assms
proof (induction ls arbitrary: c s e ts)
  case Nil
  then show ?case by (simp add: mk_segment_def exact_ms_def)
next
  case (Cons l ls)
  then obtain t ts' where ts: "ts = t # ts'" by (cases ts) auto
  have len: "length ls \<le> length ts'" using Cons.prems(1) ts by simp
  have st: "fst t = e - d" "frames_step d (snd t) ts'" using Cons.prems(2) ts by auto
  have ex: "exact_ms (fst t)" "exact_ms (snd t)"
    "\<forall>t\<in>set ts'. exact_ms (fst t) \<and> exact_ms (snd t)"
    using Cons.prems(5) ts by auto
  show ?case
  proof (cases "l = c")
    case True
    have inj: "inj_on py_str (insert c (set ls))"
      using Cons.prems(6) by (rule inj_on_subset) auto
    from Cons.IH[OF len st(2) Cons.prems(3) ex(2) ex(3) inj]
    show ?thesis using True ts by simp
  next
    case False
    have inj: "inj_on py_str (insert l (set ls))"
      using Cons.prems(6) by (rule inj_on_subset) auto
    from Cons.IH[OF len st(2) ex(1) ex(2) ex(3) inj]
    obtain segs' where segs': "merge_loop l (fst t) (snd t) ls ts' = Inr segs'" "segs' \<noteq> []"
      "start (hd segs') = fst t" "label (hd segs') = py_str l"
      "successively (\<lambda>g h. start h = end' g - d \<and> label h \<noteq> label g) segs'"
      by blast
    have ne: "py_str l \<noteq> py_str c"
      using Cons.prems(6) False by (auto simp: inj_on_def)
    have mk: "start (mk_segment s e c) = s" "end' (mk_segment s e c) = e"
      "label (mk_segment s e c) = py_str c"
      using Cons.prems(3,4) by (simp_all add: mk_segment_def exact_ms_def)
    have run: "merge_loop c s e (l # ls) ts = Inr (mk_segment s e c # segs')"
      using segs'(1) False ts by simp
    have "successively (\<lambda>g h. start h = end' g - d \<and> label h \<noteq> label g)
            (mk_segment s e c # segs')"
      using segs'(2,3,4,5) st(1) ne mk by (simp add: successively_Cons)
    then show ?thesis using run mk by simp
  qed
qed

lemma frames_step_16k:
  "frames_step (3 / 4) (3 * of_nat j / 4 + 3 / 2)
     (map (\<lambda>k. (3 * of_nat k / 4, 3 * of_nat k / 4 + 3 / 2)) [Suc j..<n])"
proof (induction "n - Suc j" arbitrary: j)
  case 0
  then show ?case by simp
next
  case (Suc m)
  then have lt: "Suc j < n" and m: "m = n - Suc (Suc j)" by auto
  have "[Suc j..<n] = Suc j # [Suc (Suc j)..<n]" using lt by (simp add: upt_rec)
  then show ?case using Suc(1)[OF m] by simp
qed

lemma int_labels_inj: "inj_on py_str (set (map IntLabel ls))"
  by (rule inj_onI) (auto dest: str_int_inj)

text \<open>
  C2 (as amended). For every run of the pipeline with at least two frames in which the
  clustering returns one label per frame, the emitted segments are sorted by start time
  and the union of their ranges \<open>[start, end)\<close> is the union of the frames' ranges.
  They are not disjoint: every segment starts exactly 0.75 s before the segment in
  front of it ends, and carries a different label. The labels of the segments are the
  labels of the frames, in order, with adjacent repetitions dropped.
\<close>

theorem segments_sorted_cover_frames:
  assumes "load_audio_mono_16k decoded = Inr (audio, sr)"
    and "slice_frames audio sr (3 / 2) (3 / 4) = Inr (frames, times')"
    and "2 \<le> length frames"
    and "extract_embeddings encode_batch frames = Inr embeddings"
    and "assign_labels cluster max_speakers embeddings = Inr labels"
    and "length labels = length embeddings"
  shows "\<exists>segments. main encode_batch cluster decoded max_speakers = Inr segments \<and>
           sorted (map start segments) \<and> covered segments = frame_ranges times' \<and>
           successively (\<lambda>g h. start h = end' g - 3 / 4 \<and> label h \<noteq> label g) segments \<and>
           map label segments = map str_int (remdups_adj labels)"
proof -
  have sr: "sr = 16000" using assms(1) by (rule load_audio_sr)
  define n where "n = n_frames (length audio)"
  let ?f = "\<lambda>k::nat. (3 * of_nat k / 4 :: rat, 3 * of_nat k / 4 + 3 / 2 :: rat)"
  have times: "times' = map ?f [0..<n]" and fn: "length frames = n"
    using assms(2) unfolding sr slice_frames_16k n_def by auto
  have n2: "2 \<le> n" using assms(3) fn by simp
  have emb: "length embeddings = n"
    using extract_embeddings_length[OF assms(4)] fn by simp
  have upt: "[0..<n] = 0 # [Suc 0..<n]" using n2 by (simp add: upt_rec)
  have tl: "times' = ?f 0 # map ?f [Suc 0..<n]" using times upt by simp
  obtain l0 ls where labels: "labels = l0 # ls" and ls: "length ls = n - 1"
    using assms(6) emb n2 by (cases labels) auto
  have run: "frames_to_segments (map IntLabel labels) times' =
      merge_loop (IntLabel l0) 0 (3 / 2) (map IntLabel ls) (map ?f [Suc 0..<n])"
    unfolding tl labels by (simp add: frames_to_segments_def)
  have ch: "frames_chain 0 (3 / 2) (map ?f [Suc 0..<n])"
    using frames_chain_16k[of 0 n] by simp
  have stp: "frames_step (3 / 4) (3 / 2) (map ?f [Suc 0..<n])"
    using frames_step_16k[of 0 n] by simp
  have ex: "\<forall>t\<in>set (map ?f [Suc 0..<n]). exact_ms (fst t) \<and> exact_ms (snd t)"
    using exact_ms_frame by auto
  have ex0: "exact_ms 0" "exact_ms (3 / 2)"
    using exact_ms_frame[of 0] by simp_all
  have len: "length (map IntLabel ls) \<le> length (map ?f [Suc 0..<n])" using ls by simp
  from merge_loop_cover[where c = "IntLabel l0", OF len _ _ ch ex0 ex]
  obtain segs where segs:
      "merge_loop (IntLabel l0) 0 (3 / 2) (map IntLabel ls) (map ?f [Suc 0..<n]) = Inr segs"
      "covered segs = {0..<3 / 2} \<union>
         frame_ranges (take (length (map IntLabel ls)) (map ?f [Suc 0..<n]))"
      "sorted (map start segs)"
    by auto
  have "take (length (map IntLabel ls)) (map ?f [Suc 0..<n]) = map ?f [Suc 0..<n]"
    using ls by simp
  then have cov: "covered segs = frame_ranges times'"
    using segs(2) unfolding tl by simp
  have inj: "inj_on py_str (insert (IntLabel l0) (set (map IntLabel ls)))"
    using int_labels_inj[of "l0 # ls"] by simp
  from merge_loop_overlap[OF len stp ex0 ex inj]
  have ov: "successively (\<lambda>g h. start h = end' g - 3 / 4 \<and> label h \<noteq> label g) segs"
    using segs(1) by auto
  have "inj IntLabel" by (simp add: inj_def)
  then have rd: "remdups_adj (map IntLabel labels) = map IntLabel (remdups_adj labels)"
    by (rule remdups_adj_map_injective)
  have "map label segs = map py_str (remdups_adj (IntLabel l0 # map IntLabel ls))"
    using segs(1) by (rule merge_loop_labels)
  also have "\<dots> = map py_str (map IntLabel (remdups_adj labels))"
    using rd labels by simp
  also have "\<dots> = map str_int (remdups_adj labels)" by simp
  finally have lab: "map label segs = map str_int (remdups_adj labels)" .
  have ne: "frames \<noteq> []" using assms(3) by auto
  have "main encode_batch cluster decoded max_speakers = Inr segs"
    using assms(1,2,4,5) emb n2 ne run segs(1) by (simp add: main_def)
  then show ?thesis using segs(3) cov ov lab by blast
qed

theorem segments_sorted_cover_frames_witness:
  "load_audio_mono_16k (Mono (replicate 36000 0), 16000) = Inr (replicate 36000 0, 16000) \<and>
   slice_frames (replicate 36000 0) 16000 (3 / 2) (3 / 4) =
     Inr ([replicate 24000 0, replicate 24000 0], [(0, 3 / 2), (3 / 4, 9 / 4)]) \<and>
   2 \<le> length [replicate 24000 (0::rat), replicate 24000 0] \<and>
   extract_embeddings (\<lambda>frame. Inr (length frame)) [replicate 24000 0, replicate 24000 0] =
     Inr [24000, 24000] \<and>
   assign_labels (\<lambda>k embeddings. Inr [0, 1]) 2 [24000, 24000 :: nat] = Inr [0, 1] \<and>
   length [0, 1 :: int] = length [24000, 24000 :: nat] \<and>
   (\<exists>segments. main (\<lambda>frame. Inr (length frame)) (\<lambda>k embeddings. Inr [0, 1])
        (Mono (replicate 36000 0), 16000) 2 = Inr segments \<and>
      sorted (map start segments) \<and>
      covered segments = frame_ranges [(0, 3 / 2), (3 / 4, 9 / 4)] \<and>
      successively (\<lambda>g h. start h = end' g - 3 / 4 \<and> label h \<noteq> label g) segments \<and>
      map label segments = map str_int (remdups_adj [0, 1]))"
proof -
  have a: "assign_labels (\<lambda>k embeddings. Inr [0, 1]) 2 [24000, 24000 :: nat] = Inr [0, 1]"
    by (simp add: assign_labels_def n_clusters_of_def)
  show ?thesis
    using segments_sorted_cover_frames [of "(Mono (replicate 36000 0), 16000)" "replicate 36000 0" 16000
      "[replicate 24000 0, replicate 24000 0]" "[(0, 3 / 2), (3 / 4, 9 / 4)]"
      "\<lambda>frame. Inr (length frame)" "[24000, 24000]" "\<lambda>k embeddings. Inr [0, 1]" 2 "[0, 1]"]
    by (simp add: load_mono slice_36000 a)
qed

text \<open>
  C2 as stated fails: two frames with different labels give two segments that share
  the time 1 s.
\<close>

theorem segments_overlap_counterexample:
  "main (\<lambda>frame. Inr frame) (\<lambda>k embeddings. Inr [0, 1]) (Mono (replicate 36000 0), 16000) 2 =
     Inr [\<lparr>start = 0, end' = 3 / 2, label = ''0''\<rparr>, \<lparr>start = 3 / 4, end' = 9 / 4, label = ''1''\<rparr>] \<and>
   1 \<in> {0 ..< 3 / 2 :: rat} \<inter> {3 / 4 ..< 9 / 4}"
proof -
  have r: "round3 0 = 0" "round3 (3 / 2) = 3 / 2" "round3 (3 / 4) = 3 / 4" "round3 (9 / 4) = 9 / 4"
    using round3_frame_start[of 0] round3_frame_end[of 0] round3_frame_start[of 1]
      round3_frame_end[of 1] by simp_all
  have s: "str_int 0 = ''0''" "str_int 1 = ''1''" by code_simp+
  have a: "assign_labels (\<lambda>k embeddings. Inr [0, 1]) 2 [replicate 24000 0, replicate 24000 (0::rat)] = Inr [0, 1]"
    by (simp add: assign_labels_def n_clusters_of_def)
  show ?thesis
    by (simp add: main_def load_mono slice_36000 a frames_to_segments_def mk_segment_def r s)
qed

subsection \<open>Merging again changes nothing\<close>

lemma py_str_inj_on: "same_dtype labels \<Longrightarrow> inj_on py_str (set labels)"
proof (rule inj_onI)
  fix x y
  assume sd: "same_dtype labels" and x: "x \<in> set labels" and y: "y \<in> set labels"
    and e: "py_str x = py_str y"
  from sd x y have "is_int x = is_int y" by (auto simp: same_dtype_def list_all_iff)
  then show "x = y" using e by (cases x; cases y) (auto dest: str_int_inj)
qed

lemma merge_loop_total:
  "length ls \<le> length ts \<Longrightarrow> \<exists>segs. merge_loop c s e ls ts = Inr segs"
proof (induction ls arbitrary: c s e ts)
  case Nil
  then show ?case by simp
next
  case (Cons l ls)
  then obtain t ts' where ts: "ts = t # ts'" by (cases ts) auto
  then have len: "length ls \<le> length ts'" using Cons.prems by simp
  show ?case
  proof (cases "l = c")
    case True
    then show ?thesis using Cons.IH[OF len, of c s "snd t"] ts by simp
  next
    case False
    then show ?thesis using Cons.IH[OF len, of l "fst t" "snd t"] ts by auto
  qed
qed

lemma exact_ms_round3: "exact_ms (round3 x)"
  by (simp add: exact_ms_def round3_idem)

lemma merge_loop_runs:
  assumes "merge_loop c s e ls ts = Inr segs" "inj_on py_str (insert c (set ls))"
  shows "segs \<noteq> [] \<and> label (hd segs) = py_str c \<and> distinct_adj (map label segs) \<and>
         (\<forall>g\<in>set segs. exact_ms (start g) \<and> exact_ms (end' g))"
  using assms
proof (induction ls arbitrary: c s e ts segs)
  case Nil
  then show ?case by (auto simp: mk_segment_def exact_ms_round3)
next
  case (Cons l ls)
  then obtain t ts' where ts: "ts = t # ts'" by (cases ts) auto
  show ?case
  proof (cases "l = c")
    case True
    have "inj_on py_str (insert c (set ls))"
      using Cons.prems(2) by (rule inj_on_subset) auto
    moreover have "merge_loop c s (snd t) ls ts' = Inr segs"
      using Cons.prems(1) ts True by simp
    ultimately show ?thesis using Cons.IH by blast
  next
    case False
    then obtain segs' where segs': "merge_loop l (fst t) (snd t) ls ts' = Inr segs'"
      and segs: "segs = mk_segment s e c # segs'"
      using Cons.prems(1) ts by (auto split: sum.splits)
    have "inj_on py_str (insert l (set ls))"
      using Cons.prems(2) by (rule inj_on_subset) auto
    then have ih: "segs' \<noteq> []" "label (hd segs') = py_str l" "distinct_adj (map label segs')"
      "\<forall>g\<in>set segs'. exact_ms (start g) \<and> exact_ms (end' g)"
      using Cons.IH[OF segs'] by auto
    have ne: "py_str l \<noteq> py_str c"
      using Cons.prems(2) False by (auto simp: inj_on_def)
    obtain h hs where hs: "segs' = h # hs" using ih(1) by (cases segs') auto
    show ?thesis
      using ih ne hs unfolding segs by (auto simp: mk_segment_def exact_ms_round3)
  qed
qed

lemma merge_loop_again:
  assumes "distinct_adj (map label (g # gs))"
    and "\<forall>x\<in>set (g # gs). exact_ms (start x) \<and> exact_ms (end' x)"
  shows "merge_loop (StrLabel (label g)) (start g) (end' g)
           (map (\<lambda>x. StrLabel (label x)) gs) (map (\<lambda>x. (start x, end' x)) gs) = Inr (g # gs)"
  using assms
proof (induction gs arbitrary: g)
  case Nil
  then show ?case by (simp add: mk_segment_def exact_ms_def)
next
  case (Cons h gs)
  have ne: "label h \<noteq> label g" using Cons.prems(1) by auto
  have "merge_loop (StrLabel (label h)) (start h) (end' h)
           (map (\<lambda>x. StrLabel (label x)) gs) (map (\<lambda>x. (start x, end' x)) gs) = Inr (h # gs)"
    using Cons.IH[of h] Cons.prems by simp
  moreover have "mk_segment (start g) (end' g) (StrLabel (label g)) = g"
    using Cons.prems(2) by (simp add: mk_segment_def exact_ms_def)
  ultimately show ?case using ne by simp
qed

text \<open>
  C8. For a non-empty label array with one time range per label, the merger returns a
  segment list, and running it again on that list, every segment taken as one frame
  with its label and its time range, returns the same list.
\<close>

theorem frames_to_segments_idempotent:
  assumes "labels \<noteq> []" "length labels = length times'" "same_dtype labels"
  shows "\<exists>segments. frames_to_segments labels times' = Inr segments \<and>
           frames_to_segments (map (\<lambda>g. StrLabel (label g)) segments)
             (map (\<lambda>g. (start g, end' g)) segments) = Inr segments"
proof -
  obtain c ls where labels: "labels = c # ls" using assms(1) by (cases labels) auto
  obtain t ts where ts: "times' = t # ts" using assms(1,2) by (cases times') auto
  have len: "length ls \<le> length ts" using assms(2) labels ts by simp
  obtain segs where segs: "merge_loop c (fst t) (snd t) ls ts = Inr segs"
    using merge_loop_total[OF len] by blast
  have first: "frames_to_segments labels times' = Inr segs"
    using segs labels ts by (simp add: frames_to_segments_def)
  have "inj_on py_str (insert c (set ls))"
    using py_str_inj_on[OF assms(3)] labels by simp
  from merge_loop_runs[OF segs this]
  have ne: "segs \<noteq> []" and da: "distinct_adj (map label segs)"
    and ex: "\<forall>g\<in>set segs. exact_ms (start g) \<and> exact_ms (end' g)" by auto
  obtain g gs where ggs: "segs = g # gs" using ne by (cases segs) auto
  have "frames_to_segments (map (\<lambda>g. StrLabel (label g)) segs)
             (map (\<lambda>g. (start g, end' g)) segs) = Inr segs"
    using merge_loop_again[of g gs] da ex unfolding ggs
    by (simp add: frames_to_segments_def)
  then show ?thesis using first by blast
qed

theorem frames_to_segments_idempotent_witness:
  "[IntLabel 0, IntLabel 0, IntLabel 1] \<noteq> [] \<and>
   length [IntLabel 0, IntLabel 0, IntLabel 1] = length [(0, 3 / 2), (3 / 4, 9 / 4), (3 / 2, 3 :: rat)] \<and>
   same_dtype [IntLabel 0, IntLabel 0, IntLabel 1] \<and>
   frames_to_segments [IntLabel 0, IntLabel 0, IntLabel 1] [(0, 3 / 2), (3 / 4, 9 / 4), (3 / 2, 3)] =
     Inr [\<lparr>start = 0, end' = 9 / 4, label = ''0''\<rparr>, \<lparr>start = 3 / 2, end' = 3, label = ''1''\<rparr>] \<and>
   frames_to_segments [StrLabel ''0'', StrLabel ''1''] [(0, 9 / 4), (3 / 2, 3)] =
     Inr [\<lparr>start = 0, end' = 9 / 4, label = ''0''\<rparr>, \<lparr>start = 3 / 2, end' = 3, label = ''1''\<rparr>]"
proof -
  have sd: "same_dtype [IntLabel 0, IntLabel 0, IntLabel 1]" by (simp add: same_dtype_def)
  have run: "frames_to_segments [IntLabel 0, IntLabel 0, IntLabel 1]
       [(0, 3 / 2), (3 / 4, 9 / 4), (3 / 2, 3)] =
     Inr [\<lparr>start = 0, end' = 9 / 4, label = ''0''\<rparr>, \<lparr>start = 3 / 2, end' = 3, label = ''1''\<rparr>]"
    by code_simp
  from frames_to_segments_idempotent [of "[IntLabel 0, IntLabel 0, IntLabel 1]" "[(0, 3 / 2), (3 / 4, 9 / 4), (3 / 2, 3)]"] sd
  obtain segments where
    "frames_to_segments [IntLabel 0, IntLabel 0, IntLabel 1]
       [(0, 3 / 2), (3 / 4, 9 / 4), (3 / 2, 3)] = Inr segments"
    "frames_to_segments (map (\<lambda>g. StrLabel (label g)) segments)
       (map (\<lambda>g. (start g, end' g)) segments) = Inr segments"
    by auto
  then show ?thesis using run sd by auto
qed

subsection \<open>The clustering of the specification: cluster count and label range\<close>

lemma cluster_pairs_mem: "(a, b) \<in> set (cluster_pairs n) \<longleftrightarrow> a < b \<and> b < n"
proof
  assume "(a, b) \<in> set (cluster_pairs n)"
  then show "a < b \<and> b < n" by (auto simp: cluster_pairs_def)
next
  assume ab: "a < b \<and> b < n"
  then have "a \<in> {0..<n}" "(a, b) \<in> Pair a ` {Suc a..<n}" by auto
  then show "(a, b) \<in> set (cluster_pairs n)"
    unfolding cluster_pairs_def by (simp del: atLeastLessThan_iff) blast
qed

lemma closest_pair_in:
  assumes "2 \<le> length clusters"
  shows "closest_pair embeddings clusters \<in> set (cluster_pairs (length clusters))"
proof -
  have "(0, 1) \<in> set (cluster_pairs (length clusters))"
    using assms by (simp add: cluster_pairs_mem)
  then have "cluster_pairs (length clusters) \<noteq> []" by auto
  then show ?thesis unfolding closest_pair_def by (rule arg_min_list_in)
qed

lemma length_merge_pair:
  assumes "b < length clusters"
  shows "length (merge_pair clusters (a, b)) = length clusters - 1"
proof -
  let ?n = "length clusters"
  have "length (filter (\<lambda>k. k \<noteq> b) [0..<?n]) = card ({k. k \<noteq> b} \<inter> set [0..<?n])"
    by (rule distinct_length_filter) simp
  also have "{k. k \<noteq> b} \<inter> set [0..<?n] = {0..<?n} - {b}" by auto
  also have "card \<dots> = ?n - 1" using assms by simp
  finally show ?thesis by (simp add: merge_pair_def)
qed

text \<open>The points of a cluster list, as a set.\<close>

lemma members_iff:
  "i \<in> \<Union>(set ` set clusters) \<longleftrightarrow> (\<exists>k<length clusters. i \<in> set (clusters ! k))"
proof
  assume "i \<in> \<Union>(set ` set clusters)"
  then obtain c where c: "c \<in> set clusters" "i \<in> set c" by auto
  then obtain k where "k < length clusters" "clusters ! k = c" by (auto simp: in_set_conv_nth)
  then show "\<exists>k<length clusters. i \<in> set (clusters ! k)" using c(2) by auto
next
  assume "\<exists>k<length clusters. i \<in> set (clusters ! k)"
  then obtain k where k: "k < length clusters" "i \<in> set (clusters ! k)" by auto
  then have "clusters ! k \<in> set clusters" by simp
  then show "i \<in> \<Union>(set ` set clusters)" using k(2) by blast
qed

lemma members_merge_iff:
  "i \<in> \<Union>(set ` set (merge_pair clusters (a, b))) \<longleftrightarrow>
     (\<exists>k<length clusters. k \<noteq> b \<and>
        i \<in> set (if k = a then clusters ! a @ clusters ! b else clusters ! k))"
proof -
  define g where "g = (\<lambda>k. if k = a then clusters ! a @ clusters ! b else clusters ! k)"
  have ks: "set (filter (\<lambda>k. k \<noteq> b) [0..<length clusters]) = {k. k < length clusters \<and> k \<noteq> b}"
    by auto
  have "merge_pair clusters (a, b) = map g (filter (\<lambda>k. k \<noteq> b) [0..<length clusters])"
    by (simp add: merge_pair_def g_def)
  then have "set (merge_pair clusters (a, b)) = g ` {k. k < length clusters \<and> k \<noteq> b}"
    by (simp only: set_map ks)
  then have "i \<in> \<Union>(set ` set (merge_pair clusters (a, b))) \<longleftrightarrow>
      (\<exists>k<length clusters. k \<noteq> b \<and> i \<in> set (g k))"
    by auto
  then show ?thesis unfolding g_def .
qed

lemma members_merge_pair:
  assumes "a < b" "b < length clusters"
  shows "\<Union>(set ` set (merge_pair clusters (a, b))) = \<Union>(set ` set clusters)"
proof (rule set_eqI)
  fix i
  let ?n = "length clusters"
  let ?g = "\<lambda>k. if k = a then clusters ! a @ clusters ! b else clusters ! k"
  have an: "a < ?n" "a \<noteq> b" using assms by auto
  have "(\<exists>k<?n. k \<noteq> b \<and> i \<in> set (?g k)) \<longleftrightarrow> (\<exists>k<?n. i \<in> set (clusters ! k))"
  proof
    assume "\<exists>k<?n. k \<noteq> b \<and> i \<in> set (?g k)"
    then obtain k where k: "k < ?n" "k \<noteq> b" "i \<in> set (?g k)" by blast
    show "\<exists>k<?n. i \<in> set (clusters ! k)"
    proof (cases "k = a")
      case True
      then have "i \<in> set (clusters ! a) \<or> i \<in> set (clusters ! b)" using k(3) by simp
      then show ?thesis using an(1) assms(2) by blast
    next
      case False
      then have "i \<in> set (clusters ! k)" using k(3) by simp
      then show ?thesis using k(1) by blast
    qed
  next
    assume "\<exists>k<?n. i \<in> set (clusters ! k)"
    then obtain j where j: "j < ?n" "i \<in> set (clusters ! j)" by blast
    show "\<exists>k<?n. k \<noteq> b \<and> i \<in> set (?g k)"
    proof (cases "j = b \<or> j = a")
      case True
      then have "i \<in> set (?g a)" using j(2) by auto
      then show ?thesis using an by blast
    next
      case False
      then have "j \<noteq> b" "i \<in> set (?g j)" using j(2) by auto
      then show ?thesis using j(1) by blast
    qed
  qed
  then show "i \<in> \<Union>(set ` set (merge_pair clusters (a, b))) \<longleftrightarrow> i \<in> \<Union>(set ` set clusters)"
    using members_merge_iff[of i clusters a b] members_iff[of i clusters] by (simp only:)
qed

lemma agglomerate_step:
  "K < int (length clusters) \<and> 2 \<le> length clusters \<Longrightarrow>
   agglomerate embeddings K clusters =
     agglomerate embeddings K (merge_pair clusters (closest_pair embeddings clusters))"
  by (subst agglomerate.simps) simp

lemma agglomerate_stop:
  "\<not> (K < int (length clusters) \<and> 2 \<le> length clusters) \<Longrightarrow>
   agglomerate embeddings K clusters = clusters"
  by (subst agglomerate.simps) auto

lemma members_agglomerate:
  "\<Union>(set ` set (agglomerate embeddings K clusters)) = \<Union>(set ` set clusters)"
proof (induction embeddings K clusters rule: agglomerate.induct)
  case (1 embeddings K clusters)
  show ?case
  proof (cases "K < int (length clusters) \<and> 2 \<le> length clusters")
    case True
    obtain a b where p: "closest_pair embeddings clusters = (a, b)"
      by (cases "closest_pair embeddings clusters")
    have "(a, b) \<in> set (cluster_pairs (length clusters))"
      using closest_pair_in[of clusters embeddings] True p by simp
    then have "a < b" "b < length clusters" by (simp_all add: cluster_pairs_mem)
    then have m: "\<Union>(set ` set (merge_pair clusters (a, b))) = \<Union>(set ` set clusters)"
      by (rule members_merge_pair)
    have "\<Union>(set ` set (agglomerate embeddings K clusters)) =
        \<Union>(set ` set (agglomerate embeddings K (merge_pair clusters (a, b))))"
      using agglomerate_step[OF True, of embeddings] p by simp
    also have "\<dots> = \<Union>(set ` set (merge_pair clusters (a, b)))"
      using 1[OF True] p by simp
    finally show ?thesis using m by simp
  next
    case False
    show ?thesis using agglomerate_stop[OF False, of embeddings] by simp
  qed
qed

lemma length_agglomerate:
  "1 \<le> K \<Longrightarrow> int (length (agglomerate embeddings K clusters)) \<le> K \<and>
     length (agglomerate embeddings K clusters) \<le> length clusters"
proof (induction embeddings K clusters rule: agglomerate.induct)
  case (1 embeddings K clusters)
  show ?case
  proof (cases "K < int (length clusters) \<and> 2 \<le> length clusters")
    case True
    obtain a b where p: "closest_pair embeddings clusters = (a, b)"
      by (cases "closest_pair embeddings clusters")
    have "(a, b) \<in> set (cluster_pairs (length clusters))"
      using closest_pair_in[of clusters embeddings] True p by simp
    then have "b < length clusters" by (simp add: cluster_pairs_mem)
    then have len: "length (merge_pair clusters (a, b)) = length clusters - 1"
      by (rule length_merge_pair)
    have ih: "int (length (agglomerate embeddings K (merge_pair clusters (a, b)))) \<le> K \<and>
        length (agglomerate embeddings K (merge_pair clusters (a, b)))
          \<le> length (merge_pair clusters (a, b))"
      using 1(1)[OF True 1(2)] p by simp
    have eq: "agglomerate embeddings K clusters =
        agglomerate embeddings K (merge_pair clusters (a, b))"
      using agglomerate_step[OF True, of embeddings] p by simp
    show ?thesis using ih unfolding eq len by auto
  next
    case False
    have "int (length clusters) \<le> K" using False 1(2) by linarith
    then show ?thesis using agglomerate_stop[OF False, of embeddings] by simp
  qed
qed

lemma label_of_less:
  "i \<in> \<Union>(set ` set clusters) \<Longrightarrow> label_of clusters i < int (length clusters)"
  unfolding label_of_def by (induction clusters) auto

lemma fit_predict_contract:
  assumes "1 \<le> n_clusters"
  shows "\<exists>labels. fit_predict n_clusters embeddings = Inr labels \<and>
           length labels = length embeddings \<and>
           set labels \<subseteq> {0..<min n_clusters (int (length embeddings))}"
proof -
  let ?N = "length embeddings"
  let ?init = "map (\<lambda>i. [i]) [0..<?N]"
  let ?cs = "agglomerate embeddings n_clusters ?init"
  have "\<Union>(set ` set ?init) = {0..<?N}" by auto
  then have mem: "\<Union>(set ` set ?cs) = {0..<?N}"
    by (simp only: members_agglomerate)
  have len: "int (length ?cs) \<le> min n_clusters (int ?N)"
    using length_agglomerate[OF assms, of embeddings ?init] by simp
  have "label_of ?cs i \<in> {0..<min n_clusters (int ?N)}" if "i < ?N" for i
  proof -
    have "i \<in> \<Union>(set ` set ?cs)" using that mem by simp
    then have "label_of ?cs i < int (length ?cs)" by (rule label_of_less)
    moreover have "0 \<le> label_of ?cs i" by (simp add: label_of_def)
    ultimately show ?thesis using len by simp
  qed
  then have "set (map (label_of ?cs) [0..<?N]) \<subseteq> {0..<min n_clusters (int ?N)}"
    by auto
  then show ?thesis
    by (simp add: fit_predict_def agglomerative_clustering_def Let_def)
qed

subsection \<open>The scenario of four embeddings\<close>

lemma sqrt_10201: "sqrt (10201 / 10000) = 101 / 100"
  by (rule real_sqrt_unique) (simp_all add: power2_eq_square)

lemma sqrt_10001_gt_1: "1 < sqrt (10001 / 10000)"
  by simp

lemma dist_vals:
  "cosine_distance [1, 0] [1, 1 / 100] = 1 - 1 / sqrt (10001 / 10000)"
  "cosine_distance [1, 0] [0, 1] = 1"
  "cosine_distance [1, 0] [0, 101 / 100] = 1"
  "cosine_distance [1, 1 / 100] [0, 1] = 1 - (1 / 100) / sqrt (10001 / 10000)"
  "cosine_distance [1, 1 / 100] [0, 101 / 100] = 1 - (1 / 100) / sqrt (10001 / 10000)"
  "cosine_distance [0, 1] [0, 101 / 100] = 0"
proof -
  have d: "dot [1, 1 / 100] [1, 1 / 100] = 10001 / 10000"
    "dot [0, 101 / 100] [0, 101 / 100] = 10201 / 10000"
    "dot [1, 0] [1, 0] = 1" "dot [0, 1] [0, 1] = 1"
    by (simp_all add: dot_def)
  have x: "dot [1, 0] [1, 1 / 100] = 1" "dot [1, 0] [0, 1] = 0" "dot [1, 0] [0, 101 / 100] = 0"
    "dot [1, 1 / 100] [0, 1] = 1 / 100" "dot [1, 1 / 100] [0, 101 / 100] = 101 / 10000"
    "dot [0, 1] [0, 101 / 100] = 101 / 100"
    by (simp_all add: dot_def)
  show "cosine_distance [1, 0] [1, 1 / 100] = 1 - 1 / sqrt (10001 / 10000)"
    unfolding cosine_distance_def d x by simp
  show "cosine_distance [1, 0] [0, 1] = 1"
    unfolding cosine_distance_def d x by simp
  show "cosine_distance [1, 0] [0, 101 / 100] = 1"
    unfolding cosine_distance_def d x by simp
  show "cosine_distance [1, 1 / 100] [0, 1] = 1 - (1 / 100) / sqrt (10001 / 10000)"
    unfolding cosine_distance_def d x by simp
  show "cosine_distance [1, 1 / 100] [0, 101 / 100] = 1 - (1 / 100) / sqrt (10001 / 10000)"
    unfolding cosine_distance_def d x sqrt_10201 by simp
  show "cosine_distance [0, 1] [0, 101 / 100] = 0"
    unfolding cosine_distance_def d x sqrt_10201 by simp
qed

lemma near_far:
  fixes r :: real
  assumes "1 < r"
  shows "0 < 1 - 1 / r" "1 - 1 / r < 1 - (1 / 100) / r" "1 - (1 / 100) / r < 1"
proof -
  have r: "0 < r" using assms by simp
  have "1 / r < 1" using assms by simp
  then show "0 < 1 - 1 / r" by simp
  have "(1 / 100) / r < 1 / r" using r by (simp add: field_simps)
  then show "1 - 1 / r < 1 - (1 / 100) / r" by simp
  have "0 < (1 / 100) / r" using r by simp
  then show "1 - (1 / 100) / r < 1" by simp
qed

lemma pairs4: "cluster_pairs 4 = [(0, 1), (0, 2), (0, 3), (1, 2), (1, 3), (2, 3)]"
  by (simp add: cluster_pairs_def upt_rec)

lemma pairs3: "cluster_pairs 3 = [(0, 1), (0, 2), (1, 2)]"
  by (simp add: cluster_pairs_def upt_rec)

lemma closest_first: "closest_pair scenario_embeddings [[0], [1], [2], [3]] = (2, 3)"
proof -
  define a :: real where "a = 1 - 1 / sqrt (10001 / 10000)"
  define b :: real where "b = 1 - (1 / 100) / sqrt (10001 / 10000)"
  have ab: "0 < a" "a < b" "b < 1"
    unfolding a_def b_def by (rule near_far[OF sqrt_10001_gt_1])+
  have l: "average_linkage scenario_embeddings [0] [1] = a"
    "average_linkage scenario_embeddings [0] [2] = 1"
    "average_linkage scenario_embeddings [0] [3] = 1"
    "average_linkage scenario_embeddings [1] [2] = b"
    "average_linkage scenario_embeddings [1] [3] = b"
    "average_linkage scenario_embeddings [2] [3] = 0"
    unfolding a_def b_def
    by (simp_all add: average_linkage_def scenario_embeddings_def dist_vals del: One_nat_def)
  have am: "arg_min_list (\<lambda>(x, y). average_linkage scenario_embeddings ([[0], [1], [2], [3]] ! x)
          ([[0], [1], [2], [3]] ! y)) [(0, 1), (0, 2), (0, 3), (1, 2), (1, 3), (2, 3)] = (2, 3)"
    using ab by (simp add: l Let_def del: One_nat_def)
  have len: "length [[0], [1], [2], [3::nat]] = 4" by simp
  show ?thesis unfolding closest_pair_def len pairs4 by (rule am)
qed

lemma closest_second: "closest_pair scenario_embeddings [[0], [1], [2, 3]] = (0, 1)"
proof -
  define a :: real where "a = 1 - 1 / sqrt (10001 / 10000)"
  define b :: real where "b = 1 - (1 / 100) / sqrt (10001 / 10000)"
  have ab: "0 < a" "a < b" "b < 1"
    unfolding a_def b_def by (rule near_far[OF sqrt_10001_gt_1])+
  have l: "average_linkage scenario_embeddings [0] [1] = a"
    "average_linkage scenario_embeddings [0] [2, 3] = 1"
    "average_linkage scenario_embeddings [1] [2, 3] = b"
    unfolding a_def b_def
    by (simp_all add: average_linkage_def scenario_embeddings_def dist_vals del: One_nat_def)
  have am: "arg_min_list (\<lambda>(x, y). average_linkage scenario_embeddings ([[0], [1], [2, 3]] ! x)
          ([[0], [1], [2, 3]] ! y)) [(0, 1), (0, 2), (1, 2)] = (0, 1)"
    using ab by (simp add: l Let_def del: One_nat_def)
  have len: "length [[0], [1], [2, 3::nat]] = 3" by simp
  show ?thesis unfolding closest_pair_def len pairs3 by (rule am)
qed

lemma merge_first: "merge_pair [[0], [1], [2], [3]] (2, 3) = [[0], [1], [2, 3]]"
  by (simp add: merge_pair_def upt_rec)

lemma merge_second: "merge_pair [[0], [1], [2, 3]] (0, 1) = [[0, 1], [2, 3]]"
  by (simp add: merge_pair_def upt_rec)

lemma agglomerate_scenario:
  "agglomerate scenario_embeddings 2 [[0], [1], [2], [3]] = [[0, 1], [2, 3]]"
proof -
  have "agglomerate scenario_embeddings 2 [[0], [1], [2], [3]] =
      agglomerate scenario_embeddings 2 [[0], [1], [2, 3]]"
    using agglomerate_step[of 2 "[[0], [1], [2], [3]]" scenario_embeddings]
    by (simp add: closest_first merge_first del: One_nat_def)
  also have "\<dots> = agglomerate scenario_embeddings 2 [[0, 1], [2, 3]]"
    using agglomerate_step[of 2 "[[0], [1], [2, 3]]" scenario_embeddings]
    by (simp add: closest_second merge_second del: One_nat_def)
  also have "\<dots> = [[0, 1], [2, 3]]"
    using agglomerate_stop[of 2 "[[0, 1], [2, 3]]" scenario_embeddings]
    by (simp del: One_nat_def)
  finally show ?thesis .
qed

lemma clustering_scenario: "agglomerative_clustering 2 scenario_embeddings = [0, 0, 1, 1]"
proof -
  have len: "length scenario_embeddings = 4" by (simp add: scenario_embeddings_def)
  have init: "map (\<lambda>i. [i]) [0..<4] = [[0], [1], [2], [3::nat]]" by (simp add: upt_rec)
  have upt: "[0..<4] = [0, 1, 2, 3::nat]" by (simp add: upt_rec)
  have cs: "agglomerate scenario_embeddings 2 (map (\<lambda>i. [i]) [0..<length scenario_embeddings]) =
      [[0, 1], [2, 3]]"
    unfolding len init by (rule agglomerate_scenario)
  have lab: "map (label_of [[0, 1], [2, 3]]) [0, 1, 2, 3] = [0, 0, 1, 1]"
    by (simp add: label_of_def)
  have "agglomerative_clustering 2 scenario_embeddings =
      map (label_of [[0, 1], [2, 3]]) [0..<length scenario_embeddings]"
    by (simp only: agglomerative_clustering_def Let_def cs)
  also have "\<dots> = [0, 0, 1, 1]" by (simp only: len upt lab)
  finally show ?thesis .
qed

lemma scenario_frames:
  "slice_frames scenario_audio 16000 (3 / 2) (3 / 4) =
     Inr ([replicate 12000 0 @ replicate 12000 1, replicate 12000 1 @ replicate 12000 2,
           replicate 12000 2 @ replicate 12000 3, replicate 12000 3 @ replicate 12000 4],
          [(0, 3 / 2), (3 / 4, 9 / 4), (3 / 2, 3), (9 / 4, 15 / 4)])"
proof -
  have n: "n_frames (length scenario_audio) = 4"
    by (simp add: n_frames_def scenario_audio_def)
  have upt: "[0..<4] = [0, 1, 2, 3::nat]" by (simp add: upt_rec)
  have s0: "py_slice scenario_audio 0 24000 = replicate 12000 0 @ replicate 12000 1"
    by (simp add: py_slice_def scenario_audio_def)
  have s1: "py_slice scenario_audio 12000 36000 = replicate 12000 1 @ replicate 12000 2"
    by (simp add: py_slice_def scenario_audio_def)
  have s2: "py_slice scenario_audio 24000 48000 = replicate 12000 2 @ replicate 12000 3"
    by (simp add: py_slice_def scenario_audio_def)
  have s3: "py_slice scenario_audio 36000 60000 = replicate 12000 3 @ replicate 12000 4"
    by (simp add: py_slice_def scenario_audio_def)
  show ?thesis
    unfolding slice_frames_16k n upt by (simp add: s0 s1 s2 s3)
qed

lemma n_clusters_scenario: "n_clusters_of 2 scenario_embeddings = 2"
  by (simp add: n_clusters_of_def scenario_embeddings_def)

lemma assign_scenario: "assign_labels fit_predict 2 scenario_embeddings = Inr [0, 0, 1, 1]"
  by (simp add: assign_labels_def n_clusters_scenario fit_predict_def clustering_scenario)

lemma scenario_extract:
  "extract_embeddings scenario_encoder
     [replicate 12000 0 @ replicate 12000 1, replicate 12000 1 @ replicate 12000 2,
      replicate 12000 2 @ replicate 12000 3, replicate 12000 3 @ replicate 12000 4] =
   Inr scenario_embeddings"
proof -
  have hd: "hd (replicate 12000 x @ ys) = x" for x :: rat and ys
    by (simp add: hd_append)
  show ?thesis
    by (simp add: scenario_encoder_def hd scenario_embeddings_def)
qed

subsection \<open>Cluster count and labels\<close>

text \<open>
  C6. For \<open>N \<ge> 1\<close> embeddings and \<open>max_speakers \<ge> 1\<close> the cluster count is
  \<open>min(max_speakers, N)\<close>; the floor at 1 does not come into play. When \<open>N < 2\<close>
  or the cluster count is 1, every frame gets the label 0 whatever the clustering is,
  which is not called, and the label set has exactly one element. In every case the
  label set has at most \<open>min(max_speakers, N)\<close> elements. For a cluster count of 2 or
  more the bound rests on the contract of the library's \<open>fit_predict\<close>, which is a
  hypothesis here: its labels lie in \<open>{0, ..., n_clusters - 1}\<close>. Within \<open>main\<close>
  these lines are reached only with \<open>N \<ge> 2\<close>, because of the guard before them.
\<close>

theorem cluster_count_and_label_bound:
  assumes "1 \<le> max_speakers" "embeddings \<noteq> []"
    and "\<forall>ls. cluster (n_clusters_of max_speakers embeddings) embeddings = Inr ls \<longrightarrow>
           set ls \<subseteq> {0..<n_clusters_of max_speakers embeddings}"
  shows "n_clusters_of max_speakers embeddings = min max_speakers (int (length embeddings)) \<and>
         (length embeddings < 2 \<or> n_clusters_of max_speakers embeddings = 1 \<longrightarrow>
            (\<forall>cluster'. assign_labels cluster' max_speakers embeddings =
               Inr (replicate (length embeddings) 0)) \<and>
            card (set (replicate (length embeddings) (0::int))) = 1) \<and>
         (assign_labels cluster max_speakers embeddings = Inr labels \<longrightarrow>
            int (card (set labels)) \<le> min max_speakers (int (length embeddings)))"
proof -
  let ?N = "length embeddings"
  let ?k = "n_clusters_of max_speakers embeddings"
  have N: "1 \<le> ?N" using assms(2) by (cases embeddings) auto
  have "\<not> min max_speakers (int ?N) < 1" using assms(1) N by simp
  then have k: "?k = min max_speakers (int ?N)"
    by (simp add: n_clusters_of_def Let_def)
  have k1: "1 \<le> ?k" using k assms(1) N by simp
  have small: "?N < 2 \<Longrightarrow> ?k = 1" using k assms(1) N by (simp add: min_def)
  have one: "?k = 1 \<Longrightarrow> assign_labels cluster' max_speakers embeddings = Inr (replicate ?N 0)"
    for cluster' :: "int \<Rightarrow> 'a list \<Rightarrow> error + int list"
    by (simp add: assign_labels_def Let_def)
  have "set (replicate ?N (0::int)) = {0}" using N by (auto simp: set_replicate_conv_if)
  then have card1: "card (set (replicate ?N (0::int))) = 1" by simp
  have bound: "int (card (set labels)) \<le> ?k"
    if l: "assign_labels cluster max_speakers embeddings = Inr labels"
  proof (cases "?k = 1")
    case True
    then have "labels = replicate ?N 0" using l one[of cluster] by simp
    then show ?thesis using card1 True by simp
  next
    case False
    then have "cluster ?k embeddings = Inr labels"
      using l by (simp add: assign_labels_def Let_def)
    then have "set labels \<subseteq> {0..<?k}" using assms(3) by blast
    then have "card (set labels) \<le> card {0..<?k}" by (intro card_mono) auto
    then show ?thesis using k1 by simp
  qed
  show ?thesis using k small one card1 bound by auto
qed

theorem cluster_count_and_label_bound_witness:
  "(1::int) \<le> 2 \<and> scenario_embeddings \<noteq> [] \<and>
   fit_predict (n_clusters_of 2 scenario_embeddings) scenario_embeddings = Inr [0, 0, 1, 1] \<and>
   set [0, 0, 1, 1] \<subseteq> {0..<n_clusters_of 2 scenario_embeddings} \<and>
   n_clusters_of 2 scenario_embeddings = min 2 (int (length scenario_embeddings)) \<and>
   assign_labels fit_predict 2 scenario_embeddings = Inr [0, 0, 1, 1] \<and>
   int (card (set [0, 0, 1, 1 :: int])) \<le> min 2 (int (length scenario_embeddings))"
proof -
  have ne: "scenario_embeddings \<noteq> []" by (simp add: scenario_embeddings_def)
  have fp: "fit_predict (n_clusters_of 2 scenario_embeddings) scenario_embeddings = Inr [0, 0, 1, 1]"
    by (simp add: n_clusters_scenario fit_predict_def clustering_scenario)
  have sub: "set [0, 0, 1, 1] \<subseteq> {0..<n_clusters_of 2 scenario_embeddings}"
    by (simp add: n_clusters_scenario)
  have contract: "\<forall>ls. fit_predict (n_clusters_of 2 scenario_embeddings) scenario_embeddings = Inr ls \<longrightarrow>
           set ls \<subseteq> {0..<n_clusters_of 2 scenario_embeddings}"
    using fp sub by simp
  have one: "(1::int) \<le> 2" by simp
  from cluster_count_and_label_bound [of 2 scenario_embeddings fit_predict "[0, 0, 1, 1]",
      OF one ne contract]
  have "n_clusters_of 2 scenario_embeddings = min 2 (int (length scenario_embeddings))"
    and "int (card (set [0, 0, 1, 1 :: int])) \<le> min 2 (int (length scenario_embeddings))"
    using assign_scenario by simp_all
  then show ?thesis using one ne fp sub assign_scenario by (intro conjI)
qed

subsection \<open>The scenario, end to end\<close>

text \<open>
  C9. With the clustering of section 4.3 of the specification in the place of the
  library, the four embeddings \<open>[1, 0]\<close>, \<open>[1, 0.01]\<close>, \<open>[0, 1]\<close>,
  \<open>[0, 1.01]\<close> and \<open>max_speakers = 2\<close> give the labels 0, 0, 1, 1: frames 0 and 1
  in one cluster, frames 2 and 3 in the other. For every input whose frames are mapped
  to these four embeddings the output consists of two segments with different labels,
  the first from the start of frame 0 to the end of frame 1, the second from the start
  of frame 2 to the end of frame 3.
\<close>

theorem scenario_two_segments:
  assumes "load_audio_mono_16k decoded = Inr (audio, sr)"
    and "slice_frames audio sr (3 / 2) (3 / 4) = Inr (frames, times')"
    and "extract_embeddings encode_batch frames = Inr scenario_embeddings"
  shows "assign_labels fit_predict 2 scenario_embeddings = Inr [0, 0, 1, 1] \<and>
         length times' = 4 \<and>
         main encode_batch fit_predict decoded 2 =
           Inr [\<lparr>start = fst (times' ! 0), end' = snd (times' ! 1), label = ''0''\<rparr>,
                \<lparr>start = fst (times' ! 2), end' = snd (times' ! 3), label = ''1''\<rparr>]"
proof -
  have sr: "sr = 16000" using assms(1) by (rule load_audio_sr)
  define n where "n = n_frames (length audio)"
  let ?f = "\<lambda>k::nat. (3 * of_nat k / 4 :: rat, 3 * of_nat k / 4 + 3 / 2 :: rat)"
  have times: "times' = map ?f [0..<n]" and fn: "length frames = n"
    using assms(2) unfolding sr slice_frames_16k n_def by auto
  have l4: "length scenario_embeddings = 4" by (simp add: scenario_embeddings_def)
  have f4: "length frames = 4"
    using extract_embeddings_length[OF assms(3)] l4 by simp
  then have n: "n = 4" using fn by simp
  have upt: "[0..<4] = [0, 1, 2, 3::nat]" by (simp add: upt_rec)
  have t: "times' = [(0, 3 / 2), (3 / 4, 9 / 4), (3 / 2, 3), (9 / 4, 15 / 4)]"
    unfolding times n upt by simp
  have r: "round3 0 = 0" "round3 (9 / 4) = 9 / 4" "round3 (3 / 2) = 3 / 2" "round3 (15 / 4) = 15 / 4"
    using round3_frame_start[of 0] round3_frame_end[of 1] round3_frame_start[of 2]
      round3_frame_end[of 3] by simp_all
  have s: "str_int 0 = ''0''" "str_int 1 = ''1''" by code_simp+
  have seg: "frames_to_segments (map IntLabel [0, 0, 1, 1]) times' =
     Inr [\<lparr>start = fst (times' ! 0), end' = snd (times' ! 1), label = ''0''\<rparr>,
          \<lparr>start = fst (times' ! 2), end' = snd (times' ! 3), label = ''1''\<rparr>]"
    unfolding t by (simp add: frames_to_segments_def mk_segment_def r s)
  have ne: "frames \<noteq> []" using f4 by auto
  have "main encode_batch fit_predict decoded 2 =
      frames_to_segments (map IntLabel [0, 0, 1, 1]) times'"
    using assms ne l4 by (simp add: main_def assign_scenario)
  then show ?thesis using seg assign_scenario t by simp
qed

theorem scenario_two_segments_witness:
  "load_audio_mono_16k (Mono scenario_audio, 16000) = Inr (scenario_audio, 16000) \<and>
   slice_frames scenario_audio 16000 (3 / 2) (3 / 4) =
     Inr ([replicate 12000 0 @ replicate 12000 1, replicate 12000 1 @ replicate 12000 2,
           replicate 12000 2 @ replicate 12000 3, replicate 12000 3 @ replicate 12000 4],
          [(0, 3 / 2), (3 / 4, 9 / 4), (3 / 2, 3), (9 / 4, 15 / 4)]) \<and>
   extract_embeddings scenario_encoder
     [replicate 12000 0 @ replicate 12000 1, replicate 12000 1 @ replicate 12000 2,
      replicate 12000 2 @ replicate 12000 3, replicate 12000 3 @ replicate 12000 4] =
     Inr scenario_embeddings \<and>
   main scenario_encoder fit_predict (Mono scenario_audio, 16000) 2 =
     Inr [\<lparr>start = 0, end' = 9 / 4, label = ''0''\<rparr>, \<lparr>start = 3 / 2, end' = 15 / 4, label = ''1''\<rparr>]"
proof -
  have m: "main scenario_encoder fit_predict (Mono scenario_audio, 16000) 2 =
     Inr [\<lparr>start = 0, end' = 9 / 4, label = ''0''\<rparr>, \<lparr>start = 3 / 2, end' = 15 / 4, label = ''1''\<rparr>]"
    using scenario_two_segments [OF load_mono scenario_frames scenario_extract] by simp
  show ?thesis by (intro conjI load_mono scenario_frames scenario_extract m)
qed

end
